theory Spec2Isabelle
  imports Complex_Main
begin

section \<open>Data model\<close>

text \<open>
  The trees both pipelines build are Python dictionaries whose values are numbers or
  further dictionaries.  A dictionary keeps its keys in insertion order, so it is an
  association list; every operation below keeps the keys distinct.  A number is a Python
  int or float; the numeric type is a parameter of the tree (hierarchy assembly never
  computes with the numbers), and it is \<open>real\<close> where the code does arithmetic: floating-point
  rounding of products is not modelled.
\<close>

datatype 'v json = Num 'v | Obj "(string \<times> 'v json) list"

type_synonym 'v dict = "(string \<times> 'v json) list"

datatype error =
  UnboundLocalError | KeyError | TypeError | IndexError | OverflowError | ValueError

text \<open>Sequencing of statements that may raise: the first exception ends the run.\<close>

fun err_bind :: "error + 'a \<Rightarrow> ('a \<Rightarrow> error + 'b) \<Rightarrow> error + 'b" where
  "err_bind (Inl e) f = Inl e"
| "err_bind (Inr x) f = f x"

text \<open>\<^verbatim>\<open>k in d\<close>.\<close>

fun has_key :: "(string \<times> 'a) list \<Rightarrow> string \<Rightarrow> bool" where
  "has_key [] k = False"
| "has_key ((k', v) # d) k = (if k' = k then True else has_key d k)"

text \<open>\<^verbatim>\<open>d[k]\<close>, a KeyError when the key is absent.\<close>

fun getitem :: "(string \<times> 'a) list \<Rightarrow> string \<Rightarrow> error + 'a" where
  "getitem [] k = Inl KeyError"
| "getitem ((k', v) # d) k = (if k' = k then Inr v else getitem d k)"

text \<open>
  \<^verbatim>\<open>d[k] = v\<close>: an existing key keeps its position and takes the new value, a new key
  goes to the end.
\<close>

fun setitem :: "(string \<times> 'a) list \<Rightarrow> string \<Rightarrow> 'a \<Rightarrow> (string \<times> 'a) list" where
  "setitem [] k v = [(k, v)]"
| "setitem ((k', v') # d) k v = (if k' = k then (k, v) # d else (k', v') # setitem d k v)"

text \<open>Subscripting or testing membership in a value that is a number is a TypeError.\<close>

fun as_dict :: "'v json \<Rightarrow> error + 'v dict" where
  "as_dict (Obj d) = Inr d"
| "as_dict (Num v) = Inl TypeError"

section \<open>Indentation pipeline: hierarchy assembly (convert_excel.py)\<close>

text \<open>
  A row as \<^verbatim>\<open>read_value_sheet\<close> returns it: the label, the indentation and the year
  data, which is \<^verbatim>\<open>None\<close> or a dictionary.  (\<^verbatim>\<open>row_idx\<close> is never read by the assembly.)
\<close>

record 'v row =
  label :: string
  indent :: int
  year_data :: "'v dict option"

text \<open>Truth value of \<^verbatim>\<open>row['year_data']\<close>: \<^verbatim>\<open>None\<close> and the empty dictionary are false.\<close>

fun truthy :: "'v dict option \<Rightarrow> bool" where
  "truthy None = False"
| "truthy (Some d) = (d \<noteq> [])"

text \<open>
  The inner loop of the pre-pass (\<^verbatim>\<open>for j in range(i + 1, len(rows))\<close>) over the rows
  after row \<open>i\<close>: true when it reaches the \<^verbatim>\<open>add\<close>.
\<close>

fun scan_children :: "'v row list \<Rightarrow> bool" where
  "scan_children [] = False"
| "scan_children (r # rs) =
     (if indent r = 3 then True
      else if indent r \<le> 2 then False
      else scan_children rs)"

text \<open>
  The pre-pass.  \<^verbatim>\<open>current_geo_scan\<close> and \<^verbatim>\<open>current_seg_scan\<close> are local variables with
  no value until an indent-0 (indent-1) row assigns them: \<open>None\<close> is the unbound
  variable, and building the tuple with an unbound variable raises UnboundLocalError.
\<close>

fun prepass ::
  "string option \<Rightarrow> string option \<Rightarrow> 'v row list \<Rightarrow> (string \<times> string \<times> string) set
     \<Rightarrow> error + (string \<times> string \<times> string) set" where
  "prepass current_geo_scan current_seg_scan [] acc = Inr acc"
| "prepass current_geo_scan current_seg_scan (r # rs) acc =
     (if indent r = 2 \<and> truthy (year_data r) then
        (if scan_children rs then
           (case current_geo_scan of
              None \<Rightarrow> Inl UnboundLocalError
            | Some g \<Rightarrow>
               (case current_seg_scan of
                  None \<Rightarrow> Inl UnboundLocalError
                | Some s \<Rightarrow>
                    prepass current_geo_scan current_seg_scan rs (insert (g, s, label r) acc)))
         else prepass current_geo_scan current_seg_scan rs acc)
      else if indent r = 0 then prepass (Some (label r)) current_seg_scan rs acc
      else if indent r = 1 then prepass current_geo_scan (Some (label r)) rs acc
      else prepass current_geo_scan current_seg_scan rs acc)"

text \<open>The variables of the main loop.\<close>

record 'v build_state =
  result :: "'v dict"
  current_geo :: "string option"
  current_seg_type :: "string option"
  current_sub_seg :: "string option"

text \<open>
  \<^verbatim>\<open>for year_key, year_val in year_data.items(): node[year_key] = year_val\<close>.
\<close>

fun merge_items :: "'v dict \<Rightarrow> 'v dict \<Rightarrow> 'v dict" where
  "merge_items node [] = node"
| "merge_items node ((k, v) # yd) = merge_items (setitem node k v) yd"

text \<open>
  One iteration of the main loop.  \<^verbatim>\<open>geo_data\<close> is a reference into \<^verbatim>\<open>result\<close>; the
  model writes the updated dictionary back at its two keys, which exist, so the write
  changes no position.  The code stores the dictionary object of a row in the tree; the
  rows are taken to carry dictionaries of their own (as \<^verbatim>\<open>read_value_sheet\<close> builds
  them), so that a later write into a node changes no other node.
\<close>

definition main_step ::
  "(string \<times> string \<times> string) set \<Rightarrow> 'v build_state \<Rightarrow> 'v row \<Rightarrow> error + 'v build_state" where
  "main_step sub_seg_has_children st r =
     (if indent r = 0 then
        Inr (st\<lparr>current_geo := Some (label r), current_seg_type := None,
                current_sub_seg := None,
                result := (if has_key (result st) (label r) then result st
                           else setitem (result st) (label r) (Obj []))\<rparr>)
      else
       (case current_geo st of
          None \<Rightarrow> Inr st
        | Some geo \<Rightarrow>
           (if indent r = 1 then
              err_bind (getitem (result st) geo) (\<lambda>rg. err_bind (as_dict rg) (\<lambda>rgd.
                Inr (st\<lparr>current_seg_type := Some (label r), current_sub_seg := None,
                        result := (if has_key rgd (label r) then result st
                                   else setitem (result st) geo
                                          (Obj (setitem rgd (label r) (Obj []))))\<rparr>)))
            else
             (case current_seg_type st of
                None \<Rightarrow> Inr st
              | Some seg \<Rightarrow>
                  err_bind (getitem (result st) geo) (\<lambda>rg. err_bind (as_dict rg) (\<lambda>rgd.
                  err_bind (getitem rgd seg) (\<lambda>gd. err_bind (as_dict gd) (\<lambda>geo_data.
                    (let store = (\<lambda>geo_data'.
                           setitem (result st) geo (Obj (setitem rgd seg (Obj geo_data'))))
                     in
                      (if indent r = 2 then
                         (let st1 = st\<lparr>current_sub_seg := Some (label r)\<rparr> in
                           (case year_data r of
                              None \<Rightarrow> Inr st1
                            | Some yd \<Rightarrow>
                               (if (geo, seg, label r) \<in> sub_seg_has_children then
                                  (let gd1 = (if has_key geo_data (label r) then geo_data
                                              else setitem geo_data (label r) (Obj []))
                                   in err_bind (getitem gd1 (label r)) (\<lambda>node.
                                      err_bind (as_dict node) (\<lambda>nd.
                                        Inr (st1\<lparr>result :=
                                          store (setitem gd1 (label r)
                                                   (Obj (merge_items nd yd)))\<rparr>))))
                                else
                                  Inr (st1\<lparr>result :=
                                         store (setitem geo_data (label r) (Obj yd))\<rparr>))))
                       else if indent r = 3 then
                         (case current_sub_seg st of
                            None \<Rightarrow> Inr st
                          | Some sub \<Rightarrow>
                             (case year_data r of
                                None \<Rightarrow> Inr st
                              | Some yd \<Rightarrow>
                                 (let gd1 = (if has_key geo_data sub then geo_data
                                             else setitem geo_data sub (Obj []))
                                  in err_bind (getitem gd1 sub) (\<lambda>node.
                                     err_bind (as_dict node) (\<lambda>nd.
                                       Inr (st\<lparr>result :=
                                         store (setitem gd1 sub
                                                  (Obj (setitem nd (label r) (Obj yd))))\<rparr>))))))
                       else Inr st))))))))))"

fun main_loop ::
  "(string \<times> string \<times> string) set \<Rightarrow> 'v build_state \<Rightarrow> 'v row list \<Rightarrow> error + 'v build_state" where
  "main_loop S st [] = Inr st"
| "main_loop S st (r # rs) = err_bind (main_step S st r) (\<lambda>st'. main_loop S st' rs)"

definition init_state :: "'v build_state" where
  "init_state = \<lparr>result = [], current_geo = None, current_seg_type = None,
                 current_sub_seg = None\<rparr>"

definition build_json_from_value_sheet :: "'v row list \<Rightarrow> error + 'v dict" where
  "build_json_from_value_sheet rows =
     err_bind (prepass None None rows {}) (\<lambda>sub_seg_has_children.
     err_bind (main_loop sub_seg_has_children init_state rows) (\<lambda>st.
       Inr (result st)))"

text \<open>
  What the claim about the pre-pass speaks of, in the specification's words: an indent-3
  row appears before any row of indentation 2 or shallower; and the label of the last
  row of a given indentation among the rows before a position.
\<close>

definition children_follow :: "'v row list \<Rightarrow> bool" where
  "children_follow rs =
     (\<exists>j < length rs. indent (rs ! j) = 3 \<and> (\<forall>k < j. 2 < indent (rs ! k)))"

definition last_label :: "int \<Rightarrow> 'v row list \<Rightarrow> string option" where
  "last_label n rs =
     (case filter (\<lambda>r. indent r = n) rs of
        [] \<Rightarrow> None
      | f # fs \<Rightarrow> Some (label (last (f # fs))))"

text \<open>
  The value of a scan variable after the rows \<open>pre\<close>, when it held \<open>d\<close> before them, and
  the triples the pre-pass adds when it starts with the scan variables \<open>g0\<close> and \<open>s0\<close>.
\<close>

definition scan_var :: "string option \<Rightarrow> int \<Rightarrow> 'v row list \<Rightarrow> string option" where
  "scan_var d n pre = (case last_label n pre of None \<Rightarrow> d | Some l \<Rightarrow> Some l)"

definition flagged_by ::
  "string option \<Rightarrow> string option \<Rightarrow> 'v row list \<Rightarrow> string \<times> string \<times> string \<Rightarrow> bool" where
  "flagged_by g0 s0 rows t =
     (\<exists>pre r post. rows = pre @ r # post \<and> indent r = 2 \<and> truthy (year_data r) \<and>
        scan_var g0 0 pre = Some (fst t) \<and> scan_var s0 1 pre = Some (fst (snd t)) \<and>
        label r = snd (snd t) \<and> scan_children post)"

section \<open>Strings and rounding\<close>

text \<open>
  On ASCII text, \<^verbatim>\<open>str.lower()\<close> maps the capital letters, \<^verbatim>\<open>sub in s\<close> is the
  substring test, \<^verbatim>\<open>str.isdigit()\<close> holds of a non-empty string of digits, and
  \<^verbatim>\<open>str(n)\<close> of a natural number is its decimal numeral.  (\<^verbatim>\<open>str.strip()\<close>, whose
  white space is a matter of Unicode, is a parameter of the functions that call it.)
\<close>

definition lower_char :: "char \<Rightarrow> char" where
  "lower_char c =
     (case map_of (zip ''ABCDEFGHIJKLMNOPQRSTUVWXYZ'' ''abcdefghijklmnopqrstuvwxyz'') c of
        Some d \<Rightarrow> d
      | None \<Rightarrow> c)"

definition lower :: "string \<Rightarrow> string" where
  "lower s = map lower_char s"

fun starts_with :: "string \<Rightarrow> string \<Rightarrow> bool" where
  "starts_with s [] = True"
| "starts_with [] (c # sub) = False"
| "starts_with (d # s) (c # sub) = (d = c \<and> starts_with s sub)"

fun contains :: "string \<Rightarrow> string \<Rightarrow> bool" where
  "contains [] sub = (sub = [])"
| "contains (c # s) sub = (starts_with (c # s) sub \<or> contains s sub)"

definition isdigit :: "string \<Rightarrow> bool" where
  "isdigit s = (s \<noteq> [] \<and> list_all (\<lambda>c. c \<in> set ''0123456789'') s)"

fun str_nat :: "nat \<Rightarrow> string" where
  "str_nat n =
     (if n < 10 then [''0123456789'' ! n]
      else str_nat (n div 10) @ [''0123456789'' ! (n mod 10)])"

declare str_nat.simps [simp del]

text \<open>
  \<^verbatim>\<open>round(x)\<close> is the nearest integer, a tie going to the even one; \<^verbatim>\<open>round(x, 1)\<close>
  is the same at the first decimal.
\<close>

definition py_round :: "real \<Rightarrow> int" where
  "py_round x =
     (let f = \<lfloor>x\<rfloor>; d = x - of_int f
      in if d < 1 / 2 then f
         else if 1 / 2 < d then f + 1
         else if even f then f else f + 1)"

definition py_round1 :: "real \<Rightarrow> real" where
  "py_round1 x = of_int (py_round (x * 10)) / 10"

text \<open>
  A Python float is a finite number, an infinity or a NaN.  \<^verbatim>\<open>round(x, 1)\<close> returns an
  infinity or a NaN as it is; \<^verbatim>\<open>round(x)\<close>, whose result is an int, raises OverflowError
  on an infinity and ValueError on a NaN.
\<close>

datatype pyfloat = Finite real | PosInf | NegInf | NaN

fun round1 :: "pyfloat \<Rightarrow> pyfloat" where
  "round1 (Finite x) = Finite (py_round1 x)"
| "round1 PosInf = PosInf"
| "round1 NegInf = NegInf"
| "round1 NaN = NaN"

fun round0 :: "pyfloat \<Rightarrow> error + int" where
  "round0 (Finite x) = Inr (py_round x)"
| "round0 PosInf = Inl OverflowError"
| "round0 NegInf = Inl OverflowError"
| "round0 NaN = Inl ValueError"

definition one_decimal :: "real \<Rightarrow> bool" where
  "one_decimal x = (\<exists>n :: int. x = of_int n / 10)"

definition whole :: "real \<Rightarrow> bool" where
  "whole x = (\<exists>n :: int. x = of_int n)"

text \<open>
  Every number of a tree satisfies \<open>P\<close>; every year value of a tree (a number under a
  key that is a year label) satisfies \<open>P\<close>.
\<close>

fun all_nums :: "('v \<Rightarrow> bool) \<Rightarrow> 'v json \<Rightarrow> bool" where
  "all_nums P (Num v) = P v"
| "all_nums P (Obj d) = (\<forall>e \<in> set d. all_nums P (snd e))"

fun year_nums :: "('v \<Rightarrow> bool) \<Rightarrow> 'v json \<Rightarrow> bool" where
  "year_nums P (Num v) = True"
| "year_nums P (Obj d) =
     (\<forall>e \<in> set d. case snd e of Num v \<Rightarrow> isdigit (fst e) \<longrightarrow> P v | Obj c \<Rightarrow> year_nums P (snd e))"

text \<open>The year data of every row satisfies \<open>P\<close>.\<close>

definition rows_ok :: "('v \<Rightarrow> bool) \<Rightarrow> 'v row list \<Rightarrow> bool" where
  "rows_ok P rows = (\<forall>r \<in> set rows. \<forall>yd. year_data r = Some yd \<longrightarrow> all_nums P (Obj yd))"

section \<open>Indentation pipeline: derived volume synthesis (convert_excel.py)\<close>

text \<open>
  The generator of the \<^verbatim>\<open>random\<close> module is a state of some type \<open>'g\<close>:
  \<^verbatim>\<open>random.seed(n)\<close> replaces the state by one that depends on \<open>n\<close> only, and
  \<^verbatim>\<open>random.uniform(lo, hi)\<close> returns a number and the next state.  Both are parameters.
\<close>

fun is_dict :: "'v json \<Rightarrow> bool" where
  "is_dict (Obj d) = True"
| "is_dict (Num v) = False"

definition has_year_data :: "'v dict \<Rightarrow> bool" where
  "has_year_data node = list_ex (\<lambda>(k, v). isdigit k) node"

definition has_children :: "'v dict \<Rightarrow> bool" where
  "has_children node = list_ex (\<lambda>(k, v). is_dict v) node"

text \<open>
  \<^verbatim>\<open>next((v for k, v in node.items() if str(k).isdigit() and isinstance(v, (int, float))), 1)\<close>
\<close>

fun base_val :: "real dict \<Rightarrow> real" where
  "base_val [] = 1"
| "base_val ((k, Num v) # node) = (if isdigit k then v else base_val node)"
| "base_val ((k, Obj c) # node) = base_val node"

text \<open>
  The \<^verbatim>\<open>if base_val > 10000 ... elif base_val > 1000 ... else\<close> chain, which both branches
  of \<^verbatim>\<open>walk_and_convert\<close> repeat: the bounds it passes to \<^verbatim>\<open>random.uniform\<close>.
\<close>

definition factor_range :: "real \<Rightarrow> real \<times> real" where
  "factor_range base =
     (if base > 10000 then (400, 800)
      else if base > 1000 then (800, 1500)
      else (1500, 3000))"

definition draw_factor ::
  "('g \<Rightarrow> real \<Rightarrow> real \<Rightarrow> real \<times> 'g) \<Rightarrow> 'g \<Rightarrow> real dict \<Rightarrow> real \<times> 'g" where
  "draw_factor uniform g node =
     (case factor_range (base_val node) of (lo, hi) \<Rightarrow> uniform g lo hi)"

text \<open>\<^verbatim>\<open>round(v * factor)\<close>, an int, stored in the tree.\<close>

definition scaled :: "real \<Rightarrow> real \<Rightarrow> real json" where
  "scaled factor v = Num (of_int (py_round (v * factor)))"

text \<open>
  \<^verbatim>\<open>walk_and_convert\<close>, with the loop over the items of a mixed node and the
  comprehension over the items of a container as functions of their own.  The generator
  state is threaded in the order of the calls.  (The nested function \<^verbatim>\<open>convert_node\<close>
  is never called.)
\<close>

fun walk_and_convert ::
    "('g \<Rightarrow> real \<Rightarrow> real \<Rightarrow> real \<times> 'g) \<Rightarrow> 'g \<Rightarrow> real json \<Rightarrow> real json \<times> 'g"
and convert_mixed ::
    "('g \<Rightarrow> real \<Rightarrow> real \<Rightarrow> real \<times> 'g) \<Rightarrow> real \<Rightarrow> 'g \<Rightarrow> real dict \<Rightarrow> real dict \<times> 'g"
and convert_container ::
    "('g \<Rightarrow> real \<Rightarrow> real \<Rightarrow> real \<times> 'g) \<Rightarrow> 'g \<Rightarrow> real dict \<Rightarrow> real dict \<times> 'g"
where
  "walk_and_convert uniform g (Num v) = (Num v, g)"
| "walk_and_convert uniform g (Obj node) =
     (if has_year_data node \<and> \<not> has_children node then
        (case draw_factor uniform g node of (factor, g1) \<Rightarrow>
           (Obj (map (\<lambda>(k, v). (k, case v of Num x \<Rightarrow> scaled factor x | Obj c \<Rightarrow> v)) node),
            g1))
      else if has_year_data node \<and> has_children node then
        (case draw_factor uniform g node of (factor, g1) \<Rightarrow>
           (case convert_mixed uniform factor g1 node of (res, g2) \<Rightarrow> (Obj res, g2)))
      else
        (case convert_container uniform g node of (res, g2) \<Rightarrow> (Obj res, g2)))"
| "convert_mixed uniform factor g [] = ([], g)"
| "convert_mixed uniform factor g ((k, Obj c) # rest) =
     (case walk_and_convert uniform g (Obj c) of (v', g1) \<Rightarrow>
        (case convert_mixed uniform factor g1 rest of (res, g2) \<Rightarrow> ((k, v') # res, g2)))"
| "convert_mixed uniform factor g ((k, Num x) # rest) =
     (case convert_mixed uniform factor g rest of (res, g2) \<Rightarrow>
        ((k, scaled factor x) # res, g2))"
| "convert_container uniform g [] = ([], g)"
| "convert_container uniform g ((k, v) # rest) =
     (case walk_and_convert uniform g v of (v', g1) \<Rightarrow>
        (case convert_container uniform g1 rest of (res, g2) \<Rightarrow> ((k, v') # res, g2)))"

text \<open>
  \<^verbatim>\<open>generate_volume_from_value\<close>: the state \<open>g\<close> the generator is in when the function is
  called is overwritten by \<^verbatim>\<open>random.seed(42)\<close>.  The result is the tree and the state the
  generator is left in.
\<close>

definition generate_volume_from_value ::
  "(int \<Rightarrow> 'g) \<Rightarrow> ('g \<Rightarrow> real \<Rightarrow> real \<Rightarrow> real \<times> 'g) \<Rightarrow> 'g \<Rightarrow> real dict \<Rightarrow> real json \<times> 'g" where
  "generate_volume_from_value seed uniform g value_data =
     walk_and_convert uniform (seed 42) (Obj value_data)"

text \<open>
  What the claim about the factors speaks of: an entry of a converted node keeps its key;
  a number of its own is converted by \<open>own\<close>, and a child is the conversion of the child
  as a tree of its own, from some state of the generator.
\<close>

definition converted_entry ::
  "('g \<Rightarrow> real \<Rightarrow> real \<Rightarrow> real \<times> 'g) \<Rightarrow> (real \<Rightarrow> real json) \<Rightarrow> string \<times> real json
     \<Rightarrow> string \<times> real json \<Rightarrow> bool" where
  "converted_entry uniform own e e' =
     (fst e' = fst e \<and>
      (case snd e of
         Num x \<Rightarrow> snd e' = own x
       | Obj c \<Rightarrow> \<exists>gi. snd e' = fst (walk_and_convert uniform gi (Obj c))))"

text \<open>The nodes of a tree that have a year key: the nodes that draw a factor.\<close>

fun year_nodes :: "'v json \<Rightarrow> nat" where
  "year_nodes (Num v) = 0"
| "year_nodes (Obj d) =
     (if has_year_data d then 1 else 0) + sum_list (map (\<lambda>e. year_nodes (snd e)) d)"

section \<open>Cells of a worksheet\<close>

text \<open>
  The value of a cell as openpyxl returns it: \<^verbatim>\<open>None\<close>, an int, a float, a string, a
  boolean, or another object (a date, a time, a duration), which is kept by its truth
  value and its \<^verbatim>\<open>str()\<close>.  The built-in conversions that the code applies are
  parameters: \<^verbatim>\<open>str\<close> of an int and of a float, \<^verbatim>\<open>str.strip\<close>, \<^verbatim>\<open>float\<close> of an int,
  which is \<open>None\<close> where Python raises OverflowError (an int beyond the range of a float),
  and \<^verbatim>\<open>float\<close> of a string, which is \<open>None\<close> where Python raises ValueError.
\<close>

datatype cell =
  Empty | IntCell int | FloatCell pyfloat | Text string | Boolean bool | Other bool string

record builtins =
  str_of_int :: "int \<Rightarrow> string"
  str_of_float :: "pyfloat \<Rightarrow> string"
  strip_text :: "string \<Rightarrow> string"
  float_of_int :: "int \<Rightarrow> pyfloat option"
  float_of_text :: "string \<Rightarrow> pyfloat option"

fun cell_truthy :: "cell \<Rightarrow> bool" where
  "cell_truthy Empty = False"
| "cell_truthy (IntCell n) = (n \<noteq> 0)"
| "cell_truthy (FloatCell f) = (f \<noteq> Finite 0)"
| "cell_truthy (Text s) = (s \<noteq> [])"
| "cell_truthy (Boolean v) = v"
| "cell_truthy (Other t s) = t"

fun cell_str :: "builtins \<Rightarrow> cell \<Rightarrow> string" where
  "cell_str b Empty = ''None''"
| "cell_str b (IntCell n) = str_of_int b n"
| "cell_str b (FloatCell f) = str_of_float b f"
| "cell_str b (Text s) = s"
| "cell_str b (Boolean v) = (if v then ''True'' else ''False'')"
| "cell_str b (Other t s) = s"

text \<open>
  \<^verbatim>\<open>float(val)\<close> under \<^verbatim>\<open>except (ValueError, TypeError): pass\<close>: the float, or \<open>None\<close>
  for an exception that the handler catches, or the OverflowError that it does not catch.
\<close>

fun cell_float :: "builtins \<Rightarrow> cell \<Rightarrow> error + pyfloat option" where
  "cell_float b Empty = Inr None"
| "cell_float b (IntCell n) =
     (case float_of_int b n of None \<Rightarrow> Inl OverflowError | Some f \<Rightarrow> Inr (Some f))"
| "cell_float b (FloatCell f) = Inr (Some f)"
| "cell_float b (Text s) = Inr (float_of_text b s)"
| "cell_float b (Boolean v) = Inr (Some (Finite (if v then 1 else 0)))"
| "cell_float b (Other t s) = Inr None"

text \<open>
  \<^verbatim>\<open>round(val, 1)\<close>: an int (or a boolean) is returned as it is, a float is rounded, and
  any other value is a TypeError.
\<close>

fun cell_round1 :: "cell \<Rightarrow> error + pyfloat" where
  "cell_round1 (IntCell n) = Inr (Finite (of_int n))"
| "cell_round1 (FloatCell f) = Inr (round1 f)"
| "cell_round1 (Boolean v) = Inr (Finite (if v then 1 else 0))"
| "cell_round1 c = Inl TypeError"

text \<open>\<^verbatim>\<open>xs[i]\<close> for an index that is not negative.\<close>

definition getindex :: "'a list \<Rightarrow> nat \<Rightarrow> error + 'a" where
  "getindex xs i = (if i < length xs then Inr (xs ! i) else Inl IndexError)"

section \<open>Indentation pipeline: row extraction (convert_excel.py)\<close>

text \<open>
  A row of the Value sheet as \<^verbatim>\<open>read_value_sheet\<close> reads it: the value of column 1, the
  indent of its alignment (\<open>None\<close> when the cell has no alignment), and the value of each
  column.  The sheet is the list of its rows from row 2 on.
\<close>

record sheet_row =
  label_cell :: cell
  alignment_indent :: "int option"
  value_cell :: "nat \<Rightarrow> cell"

definition YEARS :: "nat list" where
  "YEARS = [2021..<2034]"

fun read_years ::
  "(nat \<Rightarrow> cell) \<Rightarrow> nat \<Rightarrow> nat list \<Rightarrow> pyfloat dict \<Rightarrow> bool \<Rightarrow> error + pyfloat dict \<times> bool" where
  "read_years cells i [] yd has_data = Inr (yd, has_data)"
| "read_years cells i (year # ys) yd has_data =
     (if cells (2 + i) \<noteq> Empty then
        err_bind (cell_round1 (cells (2 + i))) (\<lambda>x.
          read_years cells (Suc i) ys (setitem yd (str_nat year) (Num x)) True)
      else read_years cells (Suc i) ys (setitem yd (str_nat year) (Num (Finite 0))) has_data)"

fun read_rows ::
  "builtins \<Rightarrow> sheet_row list \<Rightarrow> pyfloat row list \<Rightarrow> error + pyfloat row list" where
  "read_rows b [] rows = Inr rows"
| "read_rows b (sr # srs) rows =
     (if label_cell sr = Empty then read_rows b srs rows
      else
        err_bind (read_years (value_cell sr) 0 YEARS [] False) (\<lambda>(yd, has_data).
          read_rows b srs
            (rows @ [\<lparr>label = (case label_cell sr of Text s \<Rightarrow> strip_text b s
                                 | c \<Rightarrow> cell_str b c),
                       indent = (case alignment_indent sr of None \<Rightarrow> 0 | Some n \<Rightarrow> n),
                       year_data = (if has_data then Some yd else None)\<rparr>])))"

definition read_value_sheet :: "builtins \<Rightarrow> sheet_row list \<Rightarrow> error + pyfloat row list" where
  "read_value_sheet b sheet = read_rows b sheet []"

text \<open>
  Row extraction in the specification's words.  A year cell is written as 0 when it is
  empty and rounded to one decimal otherwise; the row has year data when one of its
  thirteen year cells is not empty.  A year cell that is a string or another object that
  is no number ends the run with a TypeError.
\<close>

fun numeric :: "cell \<Rightarrow> bool" where
  "numeric (Text s) = False"
| "numeric (Other t s) = False"
| "numeric c = True"

fun spec_written :: "cell \<Rightarrow> pyfloat" where
  "spec_written (IntCell n) = Finite (of_int n)"
| "spec_written (FloatCell f) = round1 f"
| "spec_written (Boolean v) = Finite (if v then 1 else 0)"
| "spec_written c = Finite 0"

definition spec_row :: "builtins \<Rightarrow> sheet_row \<Rightarrow> pyfloat row" where
  "spec_row b sr =
     \<lparr>label = (case label_cell sr of Text s \<Rightarrow> strip_text b s | c \<Rightarrow> cell_str b c),
      indent = (case alignment_indent sr of None \<Rightarrow> 0 | Some n \<Rightarrow> n),
      year_data =
        (if \<exists>i < length YEARS. value_cell sr (2 + i) \<noteq> Empty then
           Some (map (\<lambda>(i, year). (str_nat year, Num (spec_written (value_cell sr (2 + i)))))
                   (enumerate 0 YEARS))
         else None)\<rparr>"

definition labelled :: "sheet_row list \<Rightarrow> sheet_row list" where
  "labelled sheet = filter (\<lambda>sr. label_cell sr \<noteq> Empty) sheet"

definition spec_read_value_sheet :: "builtins \<Rightarrow> sheet_row list \<Rightarrow> error + pyfloat row list" where
  "spec_read_value_sheet b sheet =
     (if \<forall>sr \<in> set (labelled sheet). \<forall>i < length YEARS. numeric (value_cell sr (2 + i))
      then Inr (map (spec_row b) (labelled sheet))
      else Inl TypeError)"

section \<open>Column pipeline: row extraction (generate_solar_data.py)\<close>

record srec =
  region :: string
  segment :: string
  subsegment :: string
  values' :: "(string \<times> pyfloat) list"

text \<open>\<^verbatim>\<open>str(c).strip() if c else ""\<close>\<close>

definition field_text :: "builtins \<Rightarrow> cell \<Rightarrow> string" where
  "field_text b c = (if cell_truthy c then strip_text b (cell_str b c) else [])"

text \<open>The loop over the years of one row: \<^verbatim>\<open>for j, yr in enumerate(years)\<close>.\<close>

fun year_loop ::
  "builtins \<Rightarrow> cell list \<Rightarrow> nat \<Rightarrow> string list \<Rightarrow> (string \<times> pyfloat) list
     \<Rightarrow> error + (string \<times> pyfloat) list" where
  "year_loop b row j [] vals = Inr vals"
| "year_loop b row j (yr # yrs) vals =
     err_bind (getindex row (3 + j)) (\<lambda>val.
       if val \<noteq> Empty then
         err_bind (cell_float b val) (\<lambda>r.
           case r of
             Some x \<Rightarrow> year_loop b row (Suc j) yrs (setitem vals yr x)
           | None \<Rightarrow> year_loop b row (Suc j) yrs vals)
       else year_loop b row (Suc j) yrs vals)"

text \<open>The body of the loop of \<^verbatim>\<open>parse_section\<close>: the record of one row, if it yields one.\<close>

definition parse_row :: "builtins \<Rightarrow> string list \<Rightarrow> cell list \<Rightarrow> error + srec option" where
  "parse_row b years row =
     err_bind (getindex row 0) (\<lambda>c0.
     err_bind (getindex row 1) (\<lambda>c1.
     err_bind (getindex row 2) (\<lambda>c2.
       if field_text b c0 = [] \<or> field_text b c1 = [] \<or> field_text b c2 = [] then Inr None
       else if field_text b c0 = ''Region'' \<or> field_text b c0 = ''Volume'' then Inr None
       else
         err_bind (year_loop b row 0 years []) (\<lambda>vals.
           if vals \<noteq> [] then
             Inr (Some \<lparr>region = field_text b c0, segment = field_text b c1,
                         subsegment = field_text b c2, values' = vals\<rparr>)
           else Inr None))))"

fun section_loop ::
  "builtins \<Rightarrow> cell list list \<Rightarrow> string list \<Rightarrow> nat list \<Rightarrow> srec list \<Rightarrow> error + srec list" where
  "section_loop b all_rows years [] records = Inr records"
| "section_loop b all_rows years (i # is) records =
     err_bind (getindex all_rows i) (\<lambda>row.
     err_bind (parse_row b years row) (\<lambda>r.
       section_loop b all_rows years is
         (case r of None \<Rightarrow> records | Some rc \<Rightarrow> records @ [rc])))"

definition parse_section ::
  "builtins \<Rightarrow> cell list list \<Rightarrow> string list \<Rightarrow> nat \<Rightarrow> nat \<Rightarrow> error + srec list" where
  "parse_section b all_rows years start_idx end_idx =
     section_loop b all_rows years [Suc start_idx..<end_idx] []"

text \<open>
  Row extraction in the specification's words: a row whose region, segment or sub-segment
  is blank is rejected (and so is a repeated header or marker row); the year mapping of
  a row holds each year whose cell parses as a number, and a row with no such year yields
  no record.  A year cell overflows when it is an int that \<^verbatim>\<open>float\<close> cannot convert.
\<close>

definition blank :: "builtins \<Rightarrow> cell \<Rightarrow> bool" where
  "blank b c = (field_text b c = [])"

definition rejected :: "builtins \<Rightarrow> cell list \<Rightarrow> bool" where
  "rejected b row =
     (blank b (row ! 0) \<or> blank b (row ! 1) \<or> blank b (row ! 2) \<or>
      field_text b (row ! 0) \<in> {''Region'', ''Volume''})"

definition overflows :: "builtins \<Rightarrow> cell \<Rightarrow> bool" where
  "overflows b c = (\<exists>n. c = IntCell n \<and> float_of_int b n = None)"

definition spec_parsed :: "builtins \<Rightarrow> cell \<Rightarrow> pyfloat option" where
  "spec_parsed b c = (case cell_float b c of Inr r \<Rightarrow> r | Inl e \<Rightarrow> None)"

definition spec_year_values ::
  "builtins \<Rightarrow> string list \<Rightarrow> cell list \<Rightarrow> (string \<times> pyfloat) list" where
  "spec_year_values b years row =
     List.map_filter (\<lambda>(yr, c). map_option (Pair yr) (spec_parsed b c)) (zip years (drop 3 row))"

definition spec_record :: "builtins \<Rightarrow> string list \<Rightarrow> cell list \<Rightarrow> srec option" where
  "spec_record b years row =
     (if rejected b row then None
      else if spec_year_values b years row = [] then None
      else Some \<lparr>region = field_text b (row ! 0), segment = field_text b (row ! 1),
                  subsegment = field_text b (row ! 2),
                  values' = spec_year_values b years row\<rparr>)"

section \<open>Column pipeline: hierarchy assembly (generate_solar_data.py)\<close>

definition GEO_HIERARCHY :: "(string \<times> string list) list" where
  "GEO_HIERARCHY =
     [(''North America'', [''U.S.'', ''Canada'']),
      (''Europe'', [''U.K.'', ''Germany'', ''Italy'', ''France'', ''Spain'', ''Russia'',
                    ''Rest of Europe'']),
      (''Asia Pacific'', [''China'', ''India'', ''Japan'', ''South Korea'', ''ASEAN'',
                          ''Australia'', ''Rest of Asia Pacific'']),
      (''Latin America'', [''Brazil'', ''Argentina'', ''Mexico'', ''Rest of Latin America'']),
      (''Middle East & Africa'', [''GCC'', ''South Africa'', ''Rest of Middle East & Africa''])]"

definition REGIONS :: "string list" where
  "REGIONS = map fst GEO_HIERARCHY"

definition ALL_COUNTRIES :: "string list" where
  "ALL_COUNTRIES = concat (map snd GEO_HIERARCHY)"

definition all_geos :: "string list" where
  "all_geos = ''Global'' # REGIONS @ ALL_COUNTRIES"

text \<open>
  The normalisation of a sub-segment label under "By Region", which \<^verbatim>\<open>build_json\<close> and
  \<^verbatim>\<open>build_volume_json\<close> both write inline.
\<close>

definition normalize_label :: "string \<Rightarrow> string" where
  "normalize_label subseg =
     (if contains (lower subseg) ''middle east'' \<and> contains (lower subseg) ''africa''
      then ''Middle East & Africa'' else subseg)"

text \<open>The grouping of the records by region.\<close>

fun group_by_region ::
  "srec list \<Rightarrow> (string \<times> srec list) list \<Rightarrow> error + (string \<times> srec list) list" where
  "group_by_region [] region_records = Inr region_records"
| "group_by_region (rc # recs) region_records =
     (let rr1 = (if has_key region_records (region rc) then region_records
                 else setitem region_records (region rc) [])
      in err_bind (getitem rr1 (region rc)) (\<lambda>l.
           group_by_region recs (setitem rr1 (region rc) (l @ [rc]))))"

text \<open>
  \<^verbatim>\<open>build_json\<close> and \<^verbatim>\<open>build_volume_json\<close> are the same text but for the rounding they
  apply (\<^verbatim>\<open>round(x, 1)\<close> and \<^verbatim>\<open>round(x)\<close>, which may raise) and the warning they print:
  they are one function of the rounding \<open>rnd\<close> here.  First the loop that builds
  \<^verbatim>\<open>rounded_values\<close>, which occurs three times in each.
\<close>

fun rounded_values ::
  "(pyfloat \<Rightarrow> error + 'v) \<Rightarrow> (string \<times> pyfloat) list \<Rightarrow> string list \<Rightarrow> 'v dict
     \<Rightarrow> error + 'v dict" where
  "rounded_values rnd vals [] acc = Inr acc"
| "rounded_values rnd vals (yr # yrs) acc =
     (if has_key vals yr then
        err_bind (getitem vals yr) (\<lambda>x. err_bind (rnd x) (\<lambda>y.
          rounded_values rnd vals yrs (setitem acc yr (Num y))))
      else rounded_values rnd vals yrs acc)"

text \<open>The loop over the records of a geography that fills its segment types.\<close>

fun add_segments ::
  "(pyfloat \<Rightarrow> error + 'v) \<Rightarrow> string list \<Rightarrow> string \<Rightarrow> srec list \<Rightarrow> 'v dict
     \<Rightarrow> error + 'v dict" where
  "add_segments rnd years geo [] data = Inr data"
| "add_segments rnd years geo (rc # recs) data =
     (if segment rc \<in> {''By Region'', ''By Country''} then add_segments rnd years geo recs data
      else
        err_bind (getitem data geo) (\<lambda>dg. err_bind (as_dict dg) (\<lambda>dgd.
          (let dgd1 = (if has_key dgd (segment rc) then dgd
                       else setitem dgd (segment rc) (Obj []))
           in err_bind (rounded_values rnd (values' rc) years []) (\<lambda>rv.
              err_bind (getitem dgd1 (segment rc)) (\<lambda>sg. err_bind (as_dict sg) (\<lambda>sgd.
                add_segments rnd years geo recs
                  (setitem data geo
                     (Obj (setitem dgd1 (segment rc)
                             (Obj (setitem sgd (subsegment rc) (Obj rv)))))))))))))"

text \<open>The loops that collect "By Region" (with the normalisation) and "By Country".\<close>

fun by_region_loop ::
  "(pyfloat \<Rightarrow> error + 'v) \<Rightarrow> string list \<Rightarrow> srec list \<Rightarrow> 'v dict \<Rightarrow> error + 'v dict" where
  "by_region_loop rnd years [] by_region = Inr by_region"
| "by_region_loop rnd years (rc # recs) by_region =
     (if segment rc = ''By Region'' then
        err_bind (rounded_values rnd (values' rc) years []) (\<lambda>rv.
          by_region_loop rnd years recs
            (setitem by_region (normalize_label (subsegment rc)) (Obj rv)))
      else by_region_loop rnd years recs by_region)"

fun by_country_loop ::
  "(pyfloat \<Rightarrow> error + 'v) \<Rightarrow> string list \<Rightarrow> srec list \<Rightarrow> 'v dict \<Rightarrow> error + 'v dict" where
  "by_country_loop rnd years [] by_country = Inr by_country"
| "by_country_loop rnd years (rc # recs) by_country =
     (if segment rc = ''By Country'' then
        err_bind (rounded_values rnd (values' rc) years []) (\<lambda>rv.
          by_country_loop rnd years recs (setitem by_country (subsegment rc) (Obj rv)))
      else by_country_loop rnd years recs by_country)"

text \<open>\<^verbatim>\<open>data[geo][key] = d\<close>\<close>

definition set_under :: "'v dict \<Rightarrow> string \<Rightarrow> string \<Rightarrow> 'v dict \<Rightarrow> error + 'v dict" where
  "set_under data geo key d =
     err_bind (getitem data geo) (\<lambda>dg. err_bind (as_dict dg) (\<lambda>dgd.
       Inr (setitem data geo (Obj (setitem dgd key (Obj d))))))"

text \<open>The loop over the geographies.\<close>

fun geo_loop ::
  "(pyfloat \<Rightarrow> error + 'v) \<Rightarrow> string list \<Rightarrow> (string \<times> srec list) list \<Rightarrow> string list
     \<Rightarrow> 'v dict \<Rightarrow> error + 'v dict" where
  "geo_loop rnd years region_records [] data = Inr data"
| "geo_loop rnd years region_records (geo # geos) data =
     (if \<not> has_key region_records geo then geo_loop rnd years region_records geos data
      else
        err_bind (getitem region_records geo) (\<lambda>geo_recs.
        err_bind (add_segments rnd years geo geo_recs (setitem data geo (Obj []))) (\<lambda>data1.
        err_bind
          (if geo = ''Global'' then
             err_bind (by_region_loop rnd years geo_recs []) (\<lambda>by_region.
               if by_region \<noteq> [] then set_under data1 ''Global'' ''By Region'' by_region
               else Inr data1)
           else Inr data1) (\<lambda>data2.
        err_bind
          (if geo \<in> set REGIONS then
             err_bind (by_country_loop rnd years geo_recs []) (\<lambda>by_country.
               if by_country \<noteq> [] then set_under data2 geo ''By Country'' by_country
               else Inr data2)
           else Inr data2) (\<lambda>data3.
        geo_loop rnd years region_records geos data3)))))"

definition build_with ::
  "(pyfloat \<Rightarrow> error + 'v) \<Rightarrow> srec list \<Rightarrow> string list \<Rightarrow> error + 'v dict" where
  "build_with rnd records years =
     err_bind (group_by_region records []) (\<lambda>region_records.
       geo_loop rnd years region_records all_geos [])"

text \<open>The value tree holds floats, the volume tree ints.\<close>

definition build_json :: "srec list \<Rightarrow> string list \<Rightarrow> error + pyfloat dict" where
  "build_json = build_with (\<lambda>x. Inr (round1 x))"

definition build_volume_json :: "srec list \<Rightarrow> string list \<Rightarrow> error + int dict" where
  "build_volume_json = build_with round0"

text \<open>
  The content of the tree in the specification's words.  A record is written at
  \<^verbatim>\<open>data[geo][seg][sub]\<close> when it is a record of the geography \<open>geo\<close>, one of the known
  geographies, with the segment type \<open>seg\<close> and the sub-segment \<open>sub\<close>; "By Region" is
  kept under Global only, with the label normalised, and "By Country" under the regions
  only.  What is written there is the mapping of each year of \<open>years\<close> that the record
  has to its rounded value.
\<close>

definition placed :: "string \<Rightarrow> string \<Rightarrow> string \<Rightarrow> srec \<Rightarrow> bool" where
  "placed geo seg sub rc =
     (region rc = geo \<and> segment rc = seg \<and> geo \<in> set all_geos \<and>
      (if seg = ''By Region'' then geo = ''Global'' \<and> normalize_label (subsegment rc) = sub
       else if seg = ''By Country'' then geo \<in> set REGIONS \<and> subsegment rc = sub
       else subsegment rc = sub))"

definition spec_rounded ::
  "(pyfloat \<Rightarrow> error + 'v) \<Rightarrow> (string \<times> pyfloat) list \<Rightarrow> string list \<Rightarrow> 'v dict" where
  "spec_rounded rnd vals years =
     List.map_filter
       (\<lambda>yr. case map_of vals yr of
                None \<Rightarrow> None
              | Some x \<Rightarrow> (case rnd x of Inl e \<Rightarrow> None | Inr y \<Rightarrow> Some (yr, Num y)))
       years"

text \<open>\<^verbatim>\<open>data[geo][seg][sub]\<close>, if the three keys are there.\<close>

definition lookup3 :: "'v dict \<Rightarrow> string \<Rightarrow> string \<Rightarrow> string \<Rightarrow> 'v json option" where
  "lookup3 data geo seg sub =
     (case getitem data geo of
        Inr (Obj dg) \<Rightarrow>
          (case getitem dg seg of
             Inr (Obj sg) \<Rightarrow> (case getitem sg sub of Inr n \<Rightarrow> Some n | Inl e \<Rightarrow> None)
           | _ \<Rightarrow> None)
      | _ \<Rightarrow> None)"

text \<open>
  A record is used when the assembly writes it somewhere: its region is a known
  geography, and its segment type is kept there.  Its values round when the rounding
  raises on none of its values for the years asked for.
\<close>

definition used :: "srec \<Rightarrow> bool" where
  "used rc =
     (region rc \<in> set all_geos \<and>
      (if segment rc = ''By Region'' then region rc = ''Global''
       else if segment rc = ''By Country'' then region rc \<in> set REGIONS
       else True))"

definition rounds_ok :: "(pyfloat \<Rightarrow> error + 'v) \<Rightarrow> string list \<Rightarrow> srec \<Rightarrow> bool" where
  "rounds_ok rnd years rc =
     list_all
       (\<lambda>yr. case map_of (values' rc) yr of
                None \<Rightarrow> True
              | Some x \<Rightarrow> (case rnd x of Inl e \<Rightarrow> False | Inr y \<Rightarrow> True))
       years"

text \<open>
  The shape of the tree during assembly: its values are dictionaries of dictionaries of
  dictionaries, the current geography is one of its keys, and the current segment type
  is a key under it.
\<close>

definition dicts1 :: "'v dict \<Rightarrow> bool" where
  "dicts1 d = (\<forall>e \<in> set d. \<exists>c. snd e = Obj c)"

definition dicts2 :: "'v dict \<Rightarrow> bool" where
  "dicts2 d = (\<forall>e \<in> set d. \<exists>c. snd e = Obj c \<and> dicts1 c)"

definition dicts3 :: "'v dict \<Rightarrow> bool" where
  "dicts3 d = (\<forall>e \<in> set d. \<exists>c. snd e = Obj c \<and> dicts2 c)"

definition wf_state :: "'v build_state \<Rightarrow> bool" where
  "wf_state st =
     (dicts3 (result st) \<and>
      (\<forall>g. current_geo st = Some g \<longrightarrow>
         has_key (result st) g \<and>
         (\<forall>s rgd. current_seg_type st = Some s \<longrightarrow> getitem (result st) g = Inr (Obj rgd) \<longrightarrow>
            has_key rgd s)))"

text \<open>Construction of a row, for the concrete inputs below.\<close>

definition mk_row :: "string \<Rightarrow> int \<Rightarrow> 'v dict option \<Rightarrow> 'v row" where
  "mk_row l i yd = \<lparr>label = l, indent = i, year_data = yd\<rparr>"

section \<open>Theorems\<close>

subsection \<open>Dictionaries and sequencing\<close>

lemma err_bind_eq_Inr: "(err_bind m f = Inr y) = (\<exists>x. m = Inr x \<and> f x = Inr y)"
  by (cases m) auto

lemma getitem_setitem_same: "getitem (setitem d k v) k = Inr v"
  by (induction d) auto

lemma setitem_setitem_same: "setitem (setitem d k v) k w = setitem d k w"
  by (induction d) auto

subsection \<open>The pre-pass\<close>

lemma scan_children_iff: "scan_children rs = children_follow rs"
proof (induction rs)
  case Nil
  then show ?case by (simp add: children_follow_def)
next
  case (Cons r rs)
  show ?case
  proof (cases "indent r = 3")
    case True
    then have "children_follow (r # rs)"
      unfolding children_follow_def by (intro exI[of _ 0]) simp
    with True show ?thesis by simp
  next
    case n3: False
    show ?thesis
    proof (cases "indent r \<le> 2")
      case True
      have "\<not> children_follow (r # rs)"
      proof
        assume "children_follow (r # rs)"
        then obtain j where j: "j < length (r # rs)" "indent ((r # rs) ! j) = 3"
          "\<forall>k < j. 2 < indent ((r # rs) ! k)"
          unfolding children_follow_def by blast
        show False
        proof (cases j)
          case 0
          with j(2) n3 show False by simp
        next
          case (Suc j')
          with j(3) have "2 < indent ((r # rs) ! 0)" by blast
          with True show False by simp
        qed
      qed
      with True n3 show ?thesis by simp
    next
      case False
      have "children_follow (r # rs) = children_follow rs"
      proof
        assume "children_follow (r # rs)"
        then obtain j where j: "j < length (r # rs)" "indent ((r # rs) ! j) = 3"
          "\<forall>k < j. 2 < indent ((r # rs) ! k)"
          unfolding children_follow_def by blast
        from j(2) n3 obtain j' where j': "j = Suc j'" by (cases j) auto
        have "\<forall>k < j'. 2 < indent (rs ! k)"
        proof (intro allI impI)
          fix k assume "k < j'"
          then have "Suc k < j" using j' by simp
          with j(3) have "2 < indent ((r # rs) ! Suc k)" by blast
          then show "2 < indent (rs ! k)" by simp
        qed
        with j j' show "children_follow rs"
          unfolding children_follow_def by (intro exI[of _ j']) simp
      next
        assume "children_follow rs"
        then obtain j where j: "j < length rs" "indent (rs ! j) = 3"
          "\<forall>k < j. 2 < indent (rs ! k)"
          unfolding children_follow_def by blast
        have "\<forall>k < Suc j. 2 < indent ((r # rs) ! k)"
        proof (intro allI impI)
          fix k assume "k < Suc j"
          then show "2 < indent ((r # rs) ! k)"
            using j(3) False by (cases k) auto
        qed
        with j show "children_follow (r # rs)"
          unfolding children_follow_def by (intro exI[of _ "Suc j"]) simp
      qed
      with False n3 show ?thesis using Cons.IH by simp
    qed
  qed
qed

lemma scan_var_Nil: "scan_var d n [] = d"
  by (simp add: scan_var_def last_label_def)

lemma scan_var_Cons:
  "scan_var d n (x # pre) = scan_var (if indent x = n then Some (label x) else d) n pre"
  by (simp add: scan_var_def last_label_def split: list.splits)

lemma scan_var_None: "scan_var None n pre = last_label n pre"
  by (simp add: scan_var_def split: option.splits)

lemma flagged_by_Nil: "\<not> flagged_by g0 s0 [] t"
  by (simp add: flagged_by_def)

lemma flagged_by_Cons:
  "flagged_by g0 s0 (x # xs) t =
     ((indent x = 2 \<and> truthy (year_data x) \<and> g0 = Some (fst t) \<and> s0 = Some (fst (snd t)) \<and>
       label x = snd (snd t) \<and> scan_children xs)
      \<or> flagged_by (if indent x = 0 then Some (label x) else g0)
                    (if indent x = 1 then Some (label x) else s0) xs t)"
  (is "?L = (?A \<or> ?B)")
proof
  assume ?L
  then obtain pre r post where d: "x # xs = pre @ r # post" and
    p: "indent r = 2" "truthy (year_data r)" "scan_var g0 0 pre = Some (fst t)"
       "scan_var s0 1 pre = Some (fst (snd t))" "label r = snd (snd t)" "scan_children post"
    unfolding flagged_by_def by blast
  show "?A \<or> ?B"
  proof (cases pre)
    case Nil
    with d p have ?A by (simp add: scan_var_Nil)
    then show ?thesis ..
  next
    case (Cons y pre')
    with d have y: "y = x" and xs: "xs = pre' @ r # post" by simp_all
    from p(3,4) Cons y
    have "scan_var (if indent x = 0 then Some (label x) else g0) 0 pre' = Some (fst t)"
         "scan_var (if indent x = 1 then Some (label x) else s0) 1 pre' = Some (fst (snd t))"
      by (simp_all add: scan_var_Cons)
    with xs p(1,2,5,6) have ?B unfolding flagged_by_def by blast
    then show ?thesis ..
  qed
next
  assume "?A \<or> ?B"
  then show ?L
  proof
    assume ?A
    then have "x # xs = [] @ x # xs \<and> indent x = 2 \<and> truthy (year_data x) \<and>
        scan_var g0 0 [] = Some (fst t) \<and> scan_var s0 1 [] = Some (fst (snd t)) \<and>
        label x = snd (snd t) \<and> scan_children xs"
      by (simp add: scan_var_Nil)
    then show ?L unfolding flagged_by_def by blast
  next
    assume ?B
    then obtain pre r post where xs: "xs = pre @ r # post" and
      p: "indent r = 2" "truthy (year_data r)"
         "scan_var (if indent x = 0 then Some (label x) else g0) 0 pre = Some (fst t)"
         "scan_var (if indent x = 1 then Some (label x) else s0) 1 pre = Some (fst (snd t))"
         "label r = snd (snd t)" "scan_children post"
      unfolding flagged_by_def by blast
    from p(3,4) have "scan_var g0 0 (x # pre) = Some (fst t)"
        "scan_var s0 1 (x # pre) = Some (fst (snd t))"
      by (simp_all add: scan_var_Cons)
    moreover from xs have "x # xs = (x # pre) @ r # post" by simp
    ultimately show ?L using p(1,2,5,6) unfolding flagged_by_def by blast
  qed
qed

lemma prepass_flags:
  "prepass g0 s0 rows acc = Inr S \<Longrightarrow> (t \<in> S) = (t \<in> acc \<or> flagged_by g0 s0 rows t)"
proof (induction rows arbitrary: g0 s0 acc)
  case Nil
  then show ?case by (simp add: flagged_by_Nil)
next
  case (Cons x xs)
  show ?case
    using Cons.prems
    by (subst flagged_by_Cons)
       (auto split: if_splits option.splits dest!: Cons.IH)
qed

subsection \<open>Claims on hierarchy assembly\<close>

text \<open>
  C1: hierarchy assembly on the rows Global (0), By Product (1), Combo Products (2, 2021:
  100), Inhalers (3, 2021: 60), Pumps (3, 2021: 40) returns the tree in which Combo
  Products holds its own 2021 total followed by its two children.  The year keys are the
  strings that row extraction writes.  The rows without data may carry any year data
  \<open>nd\<close>, \<^verbatim>\<open>None\<close> (what row extraction produces) or the empty dictionary (what the
  scenario writes): the tree is the same.
\<close>

theorem C1_scenario_tree:
  "build_json_from_value_sheet
     [mk_row ''Global'' 0 nd, mk_row ''By Product'' 1 nd,
      mk_row ''Combo Products'' 2 (Some [(''2021'', Num (100::real))]),
      mk_row ''Inhalers'' 3 (Some [(''2021'', Num 60)]),
      mk_row ''Pumps'' 3 (Some [(''2021'', Num 40)])]
   = Inr [(''Global'', Obj [(''By Product'', Obj [(''Combo Products'',
            Obj [(''2021'', Num 100),
                 (''Inhalers'', Obj [(''2021'', Num 60)]),
                 (''Pumps'', Obj [(''2021'', Num 40)])])])])]"
  by (simp add: build_json_from_value_sheet_def main_step_def init_state_def mk_row_def)

text \<open>
  C2, as the code has it: when the pre-pass completes, it flags the triple (geography,
  segment type, sub-segment) exactly when some indent-2 row that carries year data has
  that label, stands after a last indent-0 row labelled with the geography and a last
  indent-1 row labelled with the segment type, and is followed by an indent-3 row before
  any row of indentation 2 or shallower.  Rows indented deeper than 3 do not end the
  scan; an indent-2 row without year data is never flagged.
\<close>

theorem C2_prepass_flags_iff:
  assumes "prepass None None rows {} = Inr S"
  shows "((g, s, l) \<in> S) =
           (\<exists>pre r post. rows = pre @ r # post \<and> indent r = 2 \<and> truthy (year_data r) \<and>
              label r = l \<and> last_label 0 pre = Some g \<and> last_label 1 pre = Some s \<and>
              children_follow post)"
proof -
  have "((g, s, l) \<in> S) = flagged_by None None rows (g, s, l)"
    using prepass_flags [OF assms, of "(g, s, l)"] by simp
  also have "\<dots> = (\<exists>pre r post. rows = pre @ r # post \<and> indent r = 2 \<and> truthy (year_data r) \<and>
              label r = l \<and> last_label 0 pre = Some g \<and> last_label 1 pre = Some s \<and>
              children_follow post)"
    unfolding flagged_by_def scan_var_None scan_children_iff by auto
  finally show ?thesis .
qed

text \<open>
  The claim as stated fails on a sub-segment row without year data: scanning forward from
  the indent-2 row Combo Products, the indent-3 row Inhalers follows at once, yet the
  pre-pass flags nothing.
\<close>

theorem C2_counterexample:
  "prepass None None
     ([mk_row ''Global'' 0 None, mk_row ''By Product'' 1 None] @
      mk_row ''Combo Products'' 2 None #
      [mk_row ''Inhalers'' 3 (Some [(''2021'', Num (60::real))])]) {} = Inr {}
   \<and> indent (mk_row ''Combo Products'' 2 (None :: real dict option)) = 2
   \<and> label (mk_row ''Combo Products'' 2 (None :: real dict option)) = ''Combo Products''
   \<and> last_label 0 [mk_row ''Global'' 0 None, mk_row ''By Product'' 1 (None :: real dict option)]
       = Some ''Global''
   \<and> last_label 1 [mk_row ''Global'' 0 None, mk_row ''By Product'' 1 (None :: real dict option)]
       = Some ''By Product''
   \<and> children_follow [mk_row ''Inhalers'' 3 (Some [(''2021'', Num (60::real))])]"
  by (simp add: mk_row_def last_label_def scan_children_iff [symmetric])

theorem C2_prepass_flags_witness:
  "prepass None None
     [mk_row ''Global'' 0 None, mk_row ''By Product'' 1 None,
      mk_row ''Combo Products'' 2 (Some [(''2021'', Num (100::real))]),
      mk_row ''Inhalers'' 3 (Some [(''2021'', Num 60)])] {}
     = Inr {(''Global'', ''By Product'', ''Combo Products'')}
   \<and> (\<exists>pre r post.
         [mk_row ''Global'' 0 None, mk_row ''By Product'' 1 None,
          mk_row ''Combo Products'' 2 (Some [(''2021'', Num (100::real))]),
          mk_row ''Inhalers'' 3 (Some [(''2021'', Num 60)])] = pre @ r # post \<and>
         indent r = 2 \<and> truthy (year_data r) \<and> label r = ''Combo Products'' \<and>
         last_label 0 pre = Some ''Global'' \<and> last_label 1 pre = Some ''By Product'' \<and>
         children_follow post)"
proof -
  have p: "prepass None None
     [mk_row ''Global'' 0 None, mk_row ''By Product'' 1 None,
      mk_row ''Combo Products'' 2 (Some [(''2021'', Num (100::real))]),
      mk_row ''Inhalers'' 3 (Some [(''2021'', Num 60)])] {}
     = Inr {(''Global'', ''By Product'', ''Combo Products'')}"
    by (simp add: mk_row_def)
  show ?thesis
    using p C2_prepass_flags_iff [OF p, of "''Global''" "''By Product''" "''Combo Products''"]
    by simp
qed

text \<open>
  C3: the scan variables can be read before any assignment.  On a sheet whose first
  labelled row is an indent-2 row with year data followed by an indent-3 row, the pre-pass
  builds the triple from \<^verbatim>\<open>current_geo_scan\<close>, which no row has assigned, and the run
  ends in UnboundLocalError.
\<close>

theorem C3_unbound_scan_variable:
  "build_json_from_value_sheet
     [mk_row ''Combo Products'' 2 (Some [(''2021'', Num (100::real))]),
      mk_row ''Inhalers'' 3 (Some [(''2021'', Num 60)])]
   = Inl UnboundLocalError"
  by (simp add: build_json_from_value_sheet_def mk_row_def)

text \<open>
  C9: in the main loop, with a geography and a segment type current, (1) an indent-2 row
  without year data becomes the current sub-segment and leaves the tree as it is; (2) an
  indent-3 row with year data under a current sub-segment that has no node yet creates
  the node with the child as its only entry; (3) an indent-3 row changes nothing when
  there is no current sub-segment or the row has no year data; (4) so the rows geography,
  segment type, sub-segment without data, child with data give a sub-segment node that
  holds the child only.
\<close>

theorem C9_children_only_node:
  "(indent r = 2 \<and> year_data r = None \<and> current_geo st = Some g \<and>
      current_seg_type st = Some s \<and> getitem (result st) g = Inr (Obj rgd) \<and>
      getitem rgd s = Inr (Obj gd)
    \<longrightarrow> main_step S st r = Inr (st\<lparr>current_sub_seg := Some (label r)\<rparr>))
   \<and> (indent r = 3 \<and> year_data r = Some yd \<and> current_geo st = Some g \<and>
      current_seg_type st = Some s \<and> current_sub_seg st = Some sub \<and>
      getitem (result st) g = Inr (Obj rgd) \<and> getitem rgd s = Inr (Obj gd) \<and>
      \<not> has_key gd sub
    \<longrightarrow> main_step S st r =
          Inr (st\<lparr>result := setitem (result st) g (Obj (setitem rgd s
                 (Obj (setitem gd sub (Obj [(label r, Obj yd)])))))\<rparr>))
   \<and> (indent r = 3 \<and> (current_sub_seg st = None \<or> year_data r = None) \<and>
      main_step S st r = Inr st'
    \<longrightarrow> st' = st)
   \<and> build_json_from_value_sheet
         [mk_row lg 0 None, mk_row ls 1 None, mk_row lx 2 None, mk_row ly 3 (Some yd)]
       = Inr [(lg, Obj [(ls, Obj [(lx, Obj [(ly, Obj yd)])])])]"
proof (intro conjI)
  show "indent r = 2 \<and> year_data r = None \<and> current_geo st = Some g \<and>
      current_seg_type st = Some s \<and> getitem (result st) g = Inr (Obj rgd) \<and>
      getitem rgd s = Inr (Obj gd)
    \<longrightarrow> main_step S st r = Inr (st\<lparr>current_sub_seg := Some (label r)\<rparr>)"
    by (simp add: main_step_def)
  show "indent r = 3 \<and> year_data r = Some yd \<and> current_geo st = Some g \<and>
      current_seg_type st = Some s \<and> current_sub_seg st = Some sub \<and>
      getitem (result st) g = Inr (Obj rgd) \<and> getitem rgd s = Inr (Obj gd) \<and>
      \<not> has_key gd sub
    \<longrightarrow> main_step S st r =
          Inr (st\<lparr>result := setitem (result st) g (Obj (setitem rgd s
                 (Obj (setitem gd sub (Obj [(label r, Obj yd)])))))\<rparr>)"
    by (simp add: main_step_def getitem_setitem_same setitem_setitem_same)
  show "indent r = 3 \<and> (current_sub_seg st = None \<or> year_data r = None) \<and>
      main_step S st r = Inr st'
    \<longrightarrow> st' = st"
    by (auto simp: main_step_def err_bind_eq_Inr split: option.splits if_splits)
  show "build_json_from_value_sheet
         [mk_row lg 0 None, mk_row ls 1 None, mk_row lx 2 None, mk_row ly 3 (Some yd)]
       = Inr [(lg, Obj [(ls, Obj [(lx, Obj [(ly, Obj yd)])])])]"
    by (simp add: build_json_from_value_sheet_def main_step_def init_state_def mk_row_def)
qed

theorem C9_children_only_node_witness:
  "main_step {}
     \<lparr>result = [(''Global'', Obj [(''By Product'', Obj ([] :: real dict))])],
      current_geo = Some ''Global'',
      current_seg_type = Some ''By Product'', current_sub_seg = None\<rparr>
     (mk_row ''Combo Products'' 2 None)
   = Inr \<lparr>result = [(''Global'', Obj [(''By Product'', Obj [])])],
          current_geo = Some ''Global'', current_seg_type = Some ''By Product'',
          current_sub_seg = Some ''Combo Products''\<rparr>
   \<and> main_step {}
     \<lparr>result = [(''Global'', Obj [(''By Product'', Obj [])])], current_geo = Some ''Global'',
      current_seg_type = Some ''By Product'', current_sub_seg = Some ''Combo Products''\<rparr>
     (mk_row ''Inhalers'' 3 (Some [(''2021'', Num (60::real))]))
   = Inr \<lparr>result = [(''Global'', Obj [(''By Product'', Obj [(''Combo Products'',
             Obj [(''Inhalers'', Obj [(''2021'', Num 60)])])])])],
          current_geo = Some ''Global'', current_seg_type = Some ''By Product'',
          current_sub_seg = Some ''Combo Products''\<rparr>
   \<and> main_step {}
     \<lparr>result = [(''Global'', Obj [(''By Product'', Obj [])])], current_geo = Some ''Global'',
      current_seg_type = Some ''By Product'', current_sub_seg = None\<rparr>
     (mk_row ''Inhalers'' 3 (Some [(''2021'', Num (60::real))]))
   = Inr \<lparr>result = [(''Global'', Obj [(''By Product'', Obj [])])],
          current_geo = Some ''Global'', current_seg_type = Some ''By Product'',
          current_sub_seg = None\<rparr>"
proof -
  let ?res = "[(''Global'', Obj [(''By Product'', Obj ([] :: real dict))])]"
  let ?st0 = "\<lparr>result = ?res, current_geo = Some ''Global'',
      current_seg_type = Some ''By Product'', current_sub_seg = None\<rparr>"
  let ?st1 = "\<lparr>result = ?res, current_geo = Some ''Global'',
      current_seg_type = Some ''By Product'', current_sub_seg = Some ''Combo Products''\<rparr>"
  let ?child = "mk_row ''Inhalers'' 3 (Some [(''2021'', Num (60::real))])"
  have ex: "\<exists>st'. main_step {} ?st0 ?child = Inr st'"
    by (simp add: main_step_def mk_row_def)
  then obtain st' where st': "main_step {} ?st0 ?child = Inr st'" ..
  have a: "main_step {} ?st0 (mk_row ''Combo Products'' 2 None) = Inr ?st1"
    using C9_children_only_node [of "mk_row ''Combo Products'' 2 None" ?st0 "''Global''"
        "''By Product''" "[(''By Product'', Obj [])]" "[]" "{}"]
    by (simp add: mk_row_def)
  have b: "main_step {} ?st1 ?child
      = Inr (?st1\<lparr>result := [(''Global'', Obj [(''By Product'', Obj [(''Combo Products'',
             Obj [(''Inhalers'', Obj [(''2021'', Num 60)])])])])]\<rparr>)"
    using C9_children_only_node [of ?child ?st1 "''Global''"
        "''By Product''" "[(''By Product'', Obj [])]" "[]" "{}" "[(''2021'', Num 60)]"
        "''Combo Products''"]
    by (simp add: mk_row_def)
  have c: "st' = ?st0"
    using C9_children_only_node [of ?child ?st0 _ _ _ _ "{}" _ _ st'] st'
    by (simp add: mk_row_def)
  from a b c st' show ?thesis by simp
qed

subsection \<open>Claims on volume synthesis\<close>

lemma convert_mixed_entries:
  "convert_mixed uniform f g node = (res, g') \<Longrightarrow>
     list_all2 (converted_entry uniform (scaled f)) node res"
proof (induction node arbitrary: g res g')
  case Nil
  then show ?case by simp
next
  case (Cons e node)
  obtain k v where e: "e = (k, v)" by (cases e)
  show ?case
  proof (cases v)
    case (Num x)
    obtain r1 g1 where r: "convert_mixed uniform f g node = (r1, g1)"
      by (cases "convert_mixed uniform f g node")
    with Cons.prems e Num have "res = (k, scaled f x) # r1" by simp
    moreover have "list_all2 (converted_entry uniform (scaled f)) node r1"
      using Cons.IH [OF r] .
    moreover have "converted_entry uniform (scaled f) e (k, scaled f x)"
      using e Num by (simp add: converted_entry_def)
    ultimately show ?thesis by simp
  next
    case (Obj c)
    obtain v' g1 where w: "walk_and_convert uniform g (Obj c) = (v', g1)"
      by (cases "walk_and_convert uniform g (Obj c)")
    obtain r1 g2 where r: "convert_mixed uniform f g1 node = (r1, g2)"
      by (cases "convert_mixed uniform f g1 node")
    from Cons.prems e Obj w r have res: "res = (k, v') # r1" by simp
    have "v' = fst (walk_and_convert uniform g (Obj c))" using w by simp
    then have "converted_entry uniform (scaled f) e (k, v')"
      using e Obj unfolding converted_entry_def by auto
    moreover have "list_all2 (converted_entry uniform (scaled f)) node r1"
      using Cons.IH [OF r] .
    ultimately show ?thesis using res by simp
  qed
qed

lemma convert_container_entries:
  "convert_container uniform g node = (res, g') \<Longrightarrow>
     list_all2 (converted_entry uniform Num) node res"
proof (induction node arbitrary: g res g')
  case Nil
  then show ?case by simp
next
  case (Cons e node)
  obtain k v where e: "e = (k, v)" by (cases e)
  obtain v' g1 where w: "walk_and_convert uniform g v = (v', g1)"
    by (cases "walk_and_convert uniform g v")
  obtain r1 g2 where r: "convert_container uniform g1 node = (r1, g2)"
    by (cases "convert_container uniform g1 node")
  from Cons.prems e w r have res: "res = (k, v') # r1" by simp
  have "converted_entry uniform Num e (k, v')"
  proof (cases v)
    case (Num x)
    with w have "v' = Num x" by simp
    with e Num show ?thesis by (simp add: converted_entry_def)
  next
    case (Obj c)
    have "v' = fst (walk_and_convert uniform g v)" using w by simp
    with e Obj show ?thesis unfolding converted_entry_def by auto
  qed
  moreover have "list_all2 (converted_entry uniform Num) node r1"
    using Cons.IH [OF r] .
  ultimately show ?case using res by simp
qed

lemma leaf_entries:
  "\<not> has_children node \<Longrightarrow>
     list_all2 (converted_entry uniform (scaled f)) node
       (map (\<lambda>(k, v). (k, case v of Num x \<Rightarrow> scaled f x | Obj c \<Rightarrow> v)) node)"
proof (induction node)
  case Nil
  then show ?case by simp
next
  case (Cons e node)
  obtain k v where e: "e = (k, v)" by (cases e)
  from Cons.prems e have nv: "\<not> is_dict v" and nc: "\<not> has_children node"
    by (simp_all add: has_children_def)
  from nv obtain x where "v = Num x" by (cases v) simp_all
  with e have "converted_entry uniform (scaled f) e (k, scaled f x)"
    by (simp add: converted_entry_def)
  with e \<open>v = Num x\<close> Cons.IH [OF nc] show ?case by simp
qed

lemma walk_year_node:
  assumes "has_year_data node"
  shows "\<exists>res g'. walk_and_convert uniform g (Obj node) = (Obj res, g') \<and>
           list_all2 (converted_entry uniform (scaled (fst (draw_factor uniform g node)))) node res"
proof -
  obtain f g1 where d: "draw_factor uniform g node = (f, g1)"
    by (cases "draw_factor uniform g node")
  show ?thesis
  proof (cases "has_children node")
    case False
    with assms d leaf_entries [OF False, of uniform f] show ?thesis by simp
  next
    case True
    obtain res g2 where r: "convert_mixed uniform f g1 node = (res, g2)"
      by (cases "convert_mixed uniform f g1 node")
    with assms d True convert_mixed_entries [OF r] show ?thesis by simp
  qed
qed

lemma walk_container:
  assumes "\<not> has_year_data node"
  shows "\<exists>res g'. walk_and_convert uniform g (Obj node) = (Obj res, g') \<and>
           list_all2 (converted_entry uniform Num) node res"
proof -
  obtain res g2 where r: "convert_container uniform g node = (res, g2)"
    by (cases "convert_container uniform g node")
  with assms convert_container_entries [OF r] show ?thesis by simp
qed

text \<open>The number of factors drawn, with a generator that counts its calls.\<close>

lemma convert_container_draws:
  assumes "\<And>e g. e \<in> set node \<Longrightarrow>
             snd (walk_and_convert (\<lambda>n lo hi. (f n lo hi, Suc n)) g (snd e)) = g + year_nodes (snd e)"
  shows "snd (convert_container (\<lambda>n lo hi. (f n lo hi, Suc n)) g node)
           = g + sum_list (map (\<lambda>e. year_nodes (snd e)) node)"
  using assms
proof (induction node arbitrary: g)
  case Nil
  then show ?case by simp
next
  case (Cons e node)
  obtain k v where e: "e = (k, v)" by (cases e)
  have w: "snd (walk_and_convert (\<lambda>n lo hi. (f n lo hi, Suc n)) g v) = g + year_nodes v"
    using Cons.prems [of e g] e by simp
  have r: "\<And>g. snd (convert_container (\<lambda>n lo hi. (f n lo hi, Suc n)) g node)
           = g + sum_list (map (\<lambda>e. year_nodes (snd e)) node)"
    using Cons.IH Cons.prems by simp
  show ?case using e w r by (simp add: split_beta)
qed

lemma convert_mixed_draws:
  assumes "\<And>e g. e \<in> set node \<Longrightarrow>
             snd (walk_and_convert (\<lambda>n lo hi. (f n lo hi, Suc n)) g (snd e)) = g + year_nodes (snd e)"
  shows "snd (convert_mixed (\<lambda>n lo hi. (f n lo hi, Suc n)) fac g node)
           = g + sum_list (map (\<lambda>e. year_nodes (snd e)) node)"
  using assms
proof (induction node arbitrary: g)
  case Nil
  then show ?case by simp
next
  case (Cons e node)
  obtain k v where e: "e = (k, v)" by (cases e)
  have r: "\<And>g. snd (convert_mixed (\<lambda>n lo hi. (f n lo hi, Suc n)) fac g node)
           = g + sum_list (map (\<lambda>e. year_nodes (snd e)) node)"
    using Cons.IH Cons.prems by simp
  show ?case
  proof (cases v)
    case (Num x)
    with e r show ?thesis by (simp add: split_beta)
  next
    case (Obj c)
    have w: "snd (walk_and_convert (\<lambda>n lo hi. (f n lo hi, Suc n)) g (Obj c)) = g + year_nodes (Obj c)"
      using Cons.prems [of e g] e Obj by simp
    show ?thesis using e Obj w r
      by (simp add: split_beta del: walk_and_convert.simps year_nodes.simps)
  qed
qed

lemma leaf_year_nodes:
  "\<not> has_children node \<Longrightarrow> sum_list (map (\<lambda>e. year_nodes (snd e)) node) = 0"
proof (induction node)
  case Nil
  then show ?case by simp
next
  case (Cons e node)
  obtain k v where e: "e = (k, v)" by (cases e)
  from Cons.prems e have nv: "\<not> is_dict v" and nc: "\<not> has_children node"
    by (simp_all add: has_children_def)
  from nv obtain x where "v = Num x" by (cases v) simp_all
  with e Cons.IH [OF nc] show ?case by simp
qed

lemma draw_factor_counts:
  "snd (draw_factor (\<lambda>n lo hi. (f n lo hi, Suc n)) g node) = Suc g"
  by (simp add: draw_factor_def split_beta)

lemma walk_draws:
  "snd (walk_and_convert (\<lambda>n lo hi. (f n lo hi, Suc n)) g t) = g + year_nodes t"
proof (induction t arbitrary: g)
  case (Num v)
  then show ?case by simp
next
  case (Obj node)
  have ih: "\<And>e g. e \<in> set node \<Longrightarrow>
      snd (walk_and_convert (\<lambda>n lo hi. (f n lo hi, Suc n)) g (snd e)) = g + year_nodes (snd e)"
  proof -
    fix e :: "string \<times> real json" and g
    assume "e \<in> set node"
    moreover have "snd e \<in> Basic_BNFs.snds e" by (cases e) simp
    ultimately show "snd (walk_and_convert (\<lambda>n lo hi. (f n lo hi, Suc n)) g (snd e))
        = g + year_nodes (snd e)"
      using Obj.IH by blast
  qed
  let ?u = "\<lambda>n lo hi. (f n lo hi, Suc n)"
  obtain fac g1 where d: "draw_factor ?u g node = (fac, g1)" by (cases "draw_factor ?u g node")
  with draw_factor_counts [of f g node] have g1: "g1 = Suc g" by simp
  show ?case
  proof (cases "has_year_data node")
    case False
    with convert_container_draws [of node f g, OF ih] show ?thesis
      by (simp add: split_beta)
  next
    case True
    show ?thesis
    proof (cases "has_children node")
      case False
      with True d g1 leaf_year_nodes [OF False] show ?thesis by simp
    next
      case hc: True
      with True d g1 convert_mixed_draws [of node f fac "Suc g", OF ih] show ?thesis
        by (simp add: split_beta)
    qed
  qed
qed

text \<open>
  C4: a node with a year key draws one factor, from the state of the generator it is
  entered with, and every number of its own becomes \<^verbatim>\<open>round(v * factor)\<close> with that one
  factor; each child is converted as a tree of its own (the factor of the parent is no
  input of its conversion).  A node without a year key leaves its own numbers as they are
  and only converts its children.  With a generator that counts its calls, converting a
  tree makes one call for each node that has a year key and none for the others.
\<close>

theorem C4_one_factor_per_node:
  "(has_year_data node \<longrightarrow>
      (\<exists>res g'. walk_and_convert uniform g (Obj node) = (Obj res, g') \<and>
         list_all2
           (converted_entry uniform
              (\<lambda>x. Num (of_int (py_round (x * fst (draw_factor uniform g node))))))
           node res))
   \<and> (\<not> has_year_data node \<longrightarrow>
      (\<exists>res g'. walk_and_convert uniform g (Obj node) = (Obj res, g') \<and>
         list_all2 (converted_entry uniform Num) node res))
   \<and> snd (walk_and_convert (\<lambda>n lo hi. (f n lo hi, Suc n)) n t) = n + year_nodes t"
proof (intro conjI impI)
  assume "has_year_data node"
  from walk_year_node [OF this, of uniform g]
  show "\<exists>res g'. walk_and_convert uniform g (Obj node) = (Obj res, g') \<and>
         list_all2
           (converted_entry uniform
              (\<lambda>x. Num (of_int (py_round (x * fst (draw_factor uniform g node))))))
           node res"
    unfolding scaled_def .
next
  assume "\<not> has_year_data node"
  from walk_container [OF this, of uniform g]
  show "\<exists>res g'. walk_and_convert uniform g (Obj node) = (Obj res, g') \<and>
         list_all2 (converted_entry uniform Num) node res" .
next
  show "snd (walk_and_convert (\<lambda>n lo hi. (f n lo hi, Suc n)) n t) = n + year_nodes t"
    by (rule walk_draws)
qed

theorem C4_one_factor_per_node_witness:
  "has_year_data [(''2021'', Num (100::real)), (''Inhalers'', Obj [(''2021'', Num 60)])]
   \<and> (\<exists>res g'.
        walk_and_convert (\<lambda>n lo hi. ((lo + hi) / 2, Suc n)) (0::nat)
          (Obj [(''2021'', Num 100), (''Inhalers'', Obj [(''2021'', Num 60)])]) = (Obj res, g') \<and>
        list_all2
          (converted_entry (\<lambda>n lo hi. ((lo + hi) / 2, Suc n))
             (\<lambda>x. Num (of_int (py_round (x * 2250)))))
          [(''2021'', Num 100), (''Inhalers'', Obj [(''2021'', Num 60)])] res)
   \<and> \<not> has_year_data [(''Combo Products'', Obj [(''2021'', Num (100::real))])]
   \<and> (\<exists>res g'.
        walk_and_convert (\<lambda>n lo hi. ((lo + hi) / 2, Suc n)) (0::nat)
          (Obj [(''Combo Products'', Obj [(''2021'', Num 100)])]) = (Obj res, g') \<and>
        list_all2 (converted_entry (\<lambda>n lo hi. ((lo + hi) / 2, Suc n)) Num)
          [(''Combo Products'', Obj [(''2021'', Num 100)])] res)"
proof -
  let ?u = "\<lambda>(n::nat) (lo::real) hi. ((lo + hi) / 2, Suc n)"
  let ?mixed = "[(''2021'', Num (100::real)), (''Inhalers'', Obj [(''2021'', Num 60)])]"
  let ?cont = "[(''Combo Products'', Obj [(''2021'', Num (100::real))])]"
  have y: "has_year_data ?mixed" by (simp add: has_year_data_def isdigit_def)
  have n: "\<not> has_year_data ?cont" by (simp add: has_year_data_def isdigit_def)
  have d: "fst (draw_factor ?u 0 ?mixed) = 2250"
    by (simp add: draw_factor_def factor_range_def isdigit_def)
  from y n d C4_one_factor_per_node [of ?mixed ?u 0] C4_one_factor_per_node [of ?cont ?u 0]
  show ?thesis by simp
qed

text \<open>
  C5, as the code has it: the bounds passed to \<^verbatim>\<open>random.uniform\<close> are (400, 800) for a
  base value above 10000, (800, 1500) for one above 1000 and (1500, 3000) for the rest.
  The ranges of two buckets meet in an end point at most (800 or 1500): they are disjoint
  as half-open intervals, not as closed ones.  The range of a larger base value is never
  higher, and lies wholly below when the buckets differ.  The factor of a node is drawn
  from the range of its own base value.
\<close>

theorem C5_factor_buckets:
  "((factor_range b = (400, 800)) = (10000 < b))
   \<and> ((factor_range b = (800, 1500)) = (1000 < b \<and> b \<le> 10000))
   \<and> ((factor_range b = (1500, 3000)) = (b \<le> 1000))
   \<and> (factor_range b \<noteq> factor_range b' \<longrightarrow>
        {fst (factor_range b)..<snd (factor_range b)} \<inter>
        {fst (factor_range b')..<snd (factor_range b')} = {}
        \<and> {fst (factor_range b)..snd (factor_range b)} \<inter>
          {fst (factor_range b')..snd (factor_range b')} \<subseteq> {800, 1500})
   \<and> (b \<le> b' \<longrightarrow> fst (factor_range b') \<le> fst (factor_range b) \<and>
                  snd (factor_range b') \<le> snd (factor_range b))
   \<and> (b \<le> b' \<and> factor_range b \<noteq> factor_range b' \<longrightarrow>
        snd (factor_range b') \<le> fst (factor_range b))
   \<and> draw_factor uniform g node =
       uniform g (fst (factor_range (base_val node))) (snd (factor_range (base_val node)))"
proof (intro conjI)
  show "(factor_range b = (400, 800)) = (10000 < b)"
    by (simp add: factor_range_def)
  show "(factor_range b = (800, 1500)) = (1000 < b \<and> b \<le> 10000)"
    by (auto simp: factor_range_def)
  show "(factor_range b = (1500, 3000)) = (b \<le> 1000)"
    by (auto simp: factor_range_def)
  show "factor_range b \<noteq> factor_range b' \<longrightarrow>
        {fst (factor_range b)..<snd (factor_range b)} \<inter>
        {fst (factor_range b')..<snd (factor_range b')} = {}
        \<and> {fst (factor_range b)..snd (factor_range b)} \<inter>
          {fst (factor_range b')..snd (factor_range b')} \<subseteq> {800, 1500}"
    by (auto simp: factor_range_def split: if_splits)
  show "b \<le> b' \<longrightarrow> fst (factor_range b') \<le> fst (factor_range b) \<and>
                  snd (factor_range b') \<le> snd (factor_range b)"
    by (auto simp: factor_range_def)
  show "b \<le> b' \<and> factor_range b \<noteq> factor_range b' \<longrightarrow>
        snd (factor_range b') \<le> fst (factor_range b)"
    by (auto simp: factor_range_def split: if_splits)
  show "draw_factor uniform g node =
       uniform g (fst (factor_range (base_val node))) (snd (factor_range (base_val node)))"
    by (simp add: draw_factor_def split_beta)
qed

text \<open>
  The claim as stated fails at the shared end point: 800 lies in the range of the bucket
  of the base value 20000 and in the range of the bucket of the base value 5000.
\<close>

theorem C5_counterexample:
  "factor_range 20000 \<noteq> factor_range 5000
   \<and> 800 \<in> {fst (factor_range 20000)..snd (factor_range 20000)} \<inter>
            {fst (factor_range 5000)..snd (factor_range 5000)}"
  by (simp add: factor_range_def)

theorem C5_factor_buckets_witness:
  "factor_range 500 \<noteq> factor_range 20000
   \<and> (500::real) \<le> 20000
   \<and> {fst (factor_range 500)..<snd (factor_range 500)} \<inter>
     {fst (factor_range 20000)..<snd (factor_range 20000)} = {}
   \<and> snd (factor_range 20000) \<le> fst (factor_range 500)
   \<and> factor_range 20000 = (400, 800) \<and> factor_range 500 = (1500, 3000)"
proof -
  have "factor_range 500 \<noteq> factor_range 20000" by (simp add: factor_range_def)
  moreover have "(500::real) \<le> 20000" by simp
  ultimately show ?thesis
    using C5_factor_buckets [of 500 20000] C5_factor_buckets [of 20000]
    by (simp add: factor_range_def)
qed

text \<open>
  C6: the tree that \<^verbatim>\<open>generate_volume_from_value\<close> returns does not depend on the state
  the generator is in when it is called, because the function seeds it first: two runs on
  the same value tree, the second of them starting from the state the first one left,
  return the same tree, and so the same text under any serialisation \<open>dump\<close>.
\<close>

theorem C6_volume_deterministic:
  "fst (generate_volume_from_value seed uniform g1 value_data)
     = fst (generate_volume_from_value seed uniform g2 value_data)
   \<and> fst (generate_volume_from_value seed uniform
            (snd (generate_volume_from_value seed uniform g1 value_data)) value_data)
     = fst (generate_volume_from_value seed uniform g1 value_data)
   \<and> dump (fst (generate_volume_from_value seed uniform g1 value_data))
     = dump (fst (generate_volume_from_value seed uniform g2 value_data))"
  by (simp add: generate_volume_from_value_def)

subsection \<open>Claims on the column pipeline\<close>

text \<open>
  C10: normalising a sub-segment label twice is normalising it once.
\<close>

theorem C10_normalize_idempotent: "normalize_label (normalize_label s) = normalize_label s"
proof (cases "contains (lower s) ''middle east'' \<and> contains (lower s) ''africa''")
  case True
  then have "normalize_label s = ''Middle East & Africa''"
    by (simp add: normalize_label_def)
  moreover have "normalize_label ''Middle East & Africa'' = ''Middle East & Africa''"
    by (simp add: normalize_label_def)
  ultimately show ?thesis by simp
next
  case False
  then have "normalize_label s = s"
    unfolding normalize_label_def by (rule if_not_P)
  then show ?thesis by simp
qed

lemma has_key_iff: "has_key d k = (k \<in> fst ` set d)"
  by (induction d) auto

lemma setitem_fresh: "\<not> has_key d k \<Longrightarrow> setitem d k v = d @ [(k, v)]"
  by (induction d) auto

lemma cell_float_no_overflow: "\<not> overflows b c \<Longrightarrow> cell_float b c = Inr (spec_parsed b c)"
  by (cases c) (auto simp: overflows_def spec_parsed_def split: option.splits)

lemma cell_float_overflow: "overflows b c \<Longrightarrow> cell_float b c = Inl OverflowError"
  by (auto simp: overflows_def)

lemma year_loop_spec:
  assumes "3 + j + length yrs \<le> length row" and "distinct yrs"
    and "set yrs \<inter> fst ` set vals = {}"
    and "\<forall>k < length yrs. \<not> overflows b (row ! (3 + j + k))"
  shows "year_loop b row j yrs vals =
           Inr (vals @ List.map_filter (\<lambda>(yr, c). map_option (Pair yr) (spec_parsed b c))
                         (zip yrs (drop (3 + j) row)))"
  using assms
proof (induction yrs arbitrary: j vals)
  case Nil
  then show ?case by simp
next
  case (Cons yr yrs)
  from Cons.prems(1) have lt: "3 + j < length row" by simp
  then have dr: "drop (3 + j) row = row ! (3 + j) # drop (Suc (3 + j)) row"
    by (rule Cons_nth_drop_Suc [symmetric])
  from Cons.prems(3) have fresh: "\<not> has_key vals yr" by (auto simp: has_key_iff)
  have len: "3 + Suc j + length yrs \<le> length row" using Cons.prems(1) by simp
  have dist: "distinct yrs" using Cons.prems(2) by simp
  have "\<not> overflows b (row ! (3 + j))" using Cons.prems(4) by force
  then have cf: "cell_float b (row ! (3 + j)) = Inr (spec_parsed b (row ! (3 + j)))"
    by (rule cell_float_no_overflow)
  have rest: "\<forall>k < length yrs. \<not> overflows b (row ! (3 + Suc j + k))"
  proof (intro allI impI)
    fix k assume "k < length yrs"
    then have "Suc k < length (yr # yrs)" by simp
    with Cons.prems(4) have "\<not> overflows b (row ! (3 + j + Suc k))" by blast
    also have "3 + j + Suc k = 3 + Suc j + k" by simp
    finally show "\<not> overflows b (row ! (3 + Suc j + k))" .
  qed
  show ?case
  proof (cases "spec_parsed b (row ! (3 + j))")
    case None
    have "set yrs \<inter> fst ` set vals = {}" using Cons.prems(3) by auto
    from Cons.IH [OF len dist this rest] None lt dr cf show ?thesis
      by (simp add: getindex_def)
  next
    case (Some x)
    with cf have ne: "row ! (3 + j) \<noteq> Empty" by auto
    have "set yrs \<inter> fst ` set (setitem vals yr x) = {}"
      using Cons.prems(2,3) fresh by (auto simp: setitem_fresh)
    from Cons.IH [OF len dist this rest] Some ne lt dr fresh cf show ?thesis
      by (simp add: getindex_def setitem_fresh)
  qed
qed

lemma parse_row_spec:
  assumes "3 + length years \<le> length row" and "distinct years"
    and "\<not> rejected b row \<longrightarrow> (\<forall>k < length years. \<not> overflows b (row ! (3 + k)))"
  shows "parse_row b years row = Inr (spec_record b years row)"
proof -
  have l: "0 < length row \<and> 1 < length row \<and> 2 < length row"
    using assms(1) by arith
  show ?thesis
  proof (cases "rejected b row")
    case True
    with l show ?thesis
      by (auto simp: parse_row_def spec_record_def rejected_def blank_def getindex_def)
  next
    case False
    with assms(3) have "\<forall>k < length years. \<not> overflows b (row ! (3 + 0 + k))" by simp
    from year_loop_spec [of 0 years row "[]" b, OF _ assms(2) _ this] assms(1)
    have "year_loop b row 0 years [] = Inr (spec_year_values b years row)"
      by (simp add: spec_year_values_def)
    with False l show ?thesis
      by (auto simp: parse_row_def spec_record_def rejected_def blank_def getindex_def)
  qed
qed

lemma section_loop_spec:
  assumes "\<forall>i \<in> set idxs. i < length all_rows \<and> 3 + length years \<le> length (all_rows ! i) \<and>
             (\<not> rejected b (all_rows ! i) \<longrightarrow>
                (\<forall>k < length years. \<not> overflows b (all_rows ! i ! (3 + k))))"
    and "distinct years"
  shows "section_loop b all_rows years idxs records =
           Inr (records @ List.map_filter (spec_record b years) (map ((!) all_rows) idxs))"
  using assms(1)
proof (induction idxs arbitrary: records)
  case Nil
  then show ?case by simp
next
  case (Cons i idxs)
  then have i: "i < length all_rows" "3 + length years \<le> length (all_rows ! i)"
    "\<not> rejected b (all_rows ! i) \<longrightarrow>
       (\<forall>k < length years. \<not> overflows b (all_rows ! i ! (3 + k)))" by simp_all
  have rest: "\<forall>i \<in> set idxs. i < length all_rows \<and> 3 + length years \<le> length (all_rows ! i) \<and>
             (\<not> rejected b (all_rows ! i) \<longrightarrow>
                (\<forall>k < length years. \<not> overflows b (all_rows ! i ! (3 + k))))"
    using Cons.prems by simp
  show ?case
    using i(1) parse_row_spec [OF i(2) assms(2) i(3)] Cons.IH [OF rest]
    by (cases "spec_record b years (all_rows ! i)") (simp_all add: getindex_def)
qed

text \<open>
  C8, as the code has it: on a sheet whose rows between the two indices all have a cell
  for each of the (distinct) year labels, and on which no year cell of a row that is not
  rejected is an int beyond the range of a float, \<^verbatim>\<open>parse_section\<close> raises nothing and
  returns, in the order of the rows, the records that the specification describes: none
  for a row whose region, segment or sub-segment is blank, and otherwise a record whose
  year mapping holds each year whose cell parses; a cell on which \<^verbatim>\<open>float\<close> raises
  ValueError or TypeError removes its own year only.
\<close>

theorem C8_parse_section:
  assumes "end_idx \<le> length all_rows"
    and "\<forall>i. start_idx < i \<and> i < end_idx \<longrightarrow> 3 + length years \<le> length (all_rows ! i)"
    and "distinct years"
    and "\<forall>i. start_idx < i \<and> i < end_idx \<and> \<not> rejected b (all_rows ! i) \<longrightarrow>
           (\<forall>k < length years. \<not> overflows b (all_rows ! i ! (3 + k)))"
  shows "parse_section b all_rows years start_idx end_idx =
           Inr (List.map_filter (spec_record b years)
                  (map ((!) all_rows) [Suc start_idx..<end_idx]))"
proof -
  have "\<forall>i \<in> set [Suc start_idx..<end_idx].
          i < length all_rows \<and> 3 + length years \<le> length (all_rows ! i) \<and>
          (\<not> rejected b (all_rows ! i) \<longrightarrow>
             (\<forall>k < length years. \<not> overflows b (all_rows ! i ! (3 + k))))"
    using assms(1,2,4) by auto
  from section_loop_spec [OF this assms(3), of "[]"] show ?thesis
    by (simp add: parse_section_def)
qed

text \<open>
  The claim as stated fails on a year cell that holds an int beyond the range of a float:
  \<^verbatim>\<open>float(2 ** 1024)\<close> raises OverflowError, which the handler does not catch, and the
  run ends there, the cell of the other year and the records of the other rows lost.
\<close>

theorem C8_counterexample:
  "parse_section
     \<lparr>str_of_int = (\<lambda>n. ''0''), str_of_float = (\<lambda>f. ''0.0''), strip_text = (\<lambda>s. s),
      float_of_int = (\<lambda>n. if \<bar>n\<bar> < 2 ^ 1024 then Some (Finite (of_int n)) else None),
      float_of_text = (\<lambda>s. None)\<rparr>
     [[Text ''Region'', Text ''Segment'', Text ''Sub-segment'', IntCell 2019, IntCell 2020],
      [Text ''Global'', Text ''By Technology'', Text ''Micro'', IntCell (2 ^ 1024), IntCell 7]]
     [''2019'', ''2020''] 0 2
   = Inl OverflowError"
  by (simp add: parse_section_def parse_row_def getindex_def field_text_def upt_rec)

theorem C8_parse_section_witness:
  "parse_section
     \<lparr>str_of_int = (\<lambda>n. ''0''), str_of_float = (\<lambda>f. ''0.0''), strip_text = (\<lambda>s. s),
      float_of_int = (\<lambda>n. if \<bar>n\<bar> < 2 ^ 1024 then Some (Finite (of_int n)) else None),
      float_of_text = (\<lambda>s. if s = ''12.5'' then Some (Finite 12.5) else None)\<rparr>
     [[Text ''Region'', Text ''Segment'', Text ''Sub-segment'', IntCell 2019, IntCell 2020],
      [Text ''Global'', Text ''By Technology'', Text ''Micro'', Text ''n/a'', Text ''12.5''],
      [Text ''Global'', Text '''', Text ''Micro'', IntCell 1, IntCell (2 ^ 1024)],
      [Text ''Global'', Empty, Text ''Micro'', IntCell 1, IntCell 2]]
     [''2019'', ''2020''] 0 4
   = Inr [\<lparr>region = ''Global'', segment = ''By Technology'', subsegment = ''Micro'',
           values' = [(''2020'', Finite 12.5)]\<rparr>]"
proof -
  let ?b = "\<lparr>str_of_int = (\<lambda>n :: int. ''0''), str_of_float = (\<lambda>f :: pyfloat. ''0.0''),
      strip_text = (\<lambda>s :: string. s),
      float_of_int = (\<lambda>n :: int. if \<bar>n\<bar> < 2 ^ 1024 then Some (Finite (of_int n)) else None),
      float_of_text = (\<lambda>s. if s = ''12.5'' then Some (Finite 12.5) else None)\<rparr>"
  let ?rows = "[[Text ''Region'', Text ''Segment'', Text ''Sub-segment'', IntCell 2019,
       IntCell 2020],
      [Text ''Global'', Text ''By Technology'', Text ''Micro'', Text ''n/a'', Text ''12.5''],
      [Text ''Global'', Text '''', Text ''Micro'', IntCell 1, IntCell (2 ^ 1024)],
      [Text ''Global'', Empty, Text ''Micro'', IntCell 1, IntCell 2]]"
  have len: "(4::nat) \<le> length ?rows" by simp
  have cases: "i = 1 \<or> i = 2 \<or> i = 3" if "0 < i \<and> i < 4" for i :: nat
    using that by arith
  have wide: "\<forall>i. 0 < i \<and> i < 4 \<longrightarrow> 3 + length [''2019'', ''2020''] \<le> length (?rows ! i)"
  proof (intro allI impI)
    fix i :: nat
    assume "0 < i \<and> i < 4"
    from cases [OF this]
    show "3 + length [''2019'', ''2020''] \<le> length (?rows ! i)" by auto
  qed
  have dist: "distinct [''2019'', ''2020'']" by simp
  have safe: "\<forall>i. 0 < i \<and> i < 4 \<and> \<not> rejected ?b (?rows ! i) \<longrightarrow>
      (\<forall>k < length [''2019'', ''2020'']. \<not> overflows ?b (?rows ! i ! (3 + k)))"
  proof (intro allI impI)
    fix i k :: nat
    assume a: "0 < i \<and> i < 4 \<and> \<not> rejected ?b (?rows ! i)" and "k < length [''2019'', ''2020'']"
    then have k: "k = 0 \<or> k = 1" by auto
    from a cases [of i] have "i = 1 \<or> i = 2 \<or> i = 3" by blast
    with a k show "\<not> overflows ?b (?rows ! i ! (3 + k))"
      by (auto simp: overflows_def rejected_def blank_def field_text_def)
  qed
  have idx: "[Suc 0..<4] = [1, 2, 3]" by (simp add: upt_rec)
  show ?thesis
    unfolding C8_parse_section [OF len wide dist safe] idx
    by (simp add: spec_record_def spec_year_values_def spec_parsed_def rejected_def blank_def
        field_text_def)
qed

subsection \<open>Rounding of the values written\<close>

lemma py_round_near: "\<bar>of_int (py_round x) - x\<bar> \<le> 1 / 2"
proof -
  have "of_int \<lfloor>x\<rfloor> \<le> x" "x < of_int \<lfloor>x\<rfloor> + 1" by linarith+
  then show ?thesis unfolding py_round_def Let_def by (simp; linarith)
qed

lemma py_round1_near: "\<bar>py_round1 x - x\<bar> \<le> 1 / 20"
  using py_round_near [of "x * 10"] by (simp add: py_round1_def field_simps)

lemma one_decimal_py_round1: "one_decimal (py_round1 x)"
  unfolding one_decimal_def py_round1_def by blast

lemma one_decimal_0: "one_decimal 0"
  unfolding one_decimal_def by (rule exI [of _ 0]) simp

lemma one_decimal_1: "one_decimal 1"
  unfolding one_decimal_def by (rule exI [of _ 10]) simp

lemma whole_py_round: "whole (of_int (py_round x))"
  unfolding whole_def by blast

lemma set_setitem: "set (setitem d k v) \<subseteq> insert (k, v) (set d)"
  by (induction d) (auto split: if_splits)

lemma getitem_in_set: "getitem d k = Inr v \<Longrightarrow> (k, v) \<in> set d"
  by (induction d) (auto split: if_splits)

lemma all_nums_setitem:
  assumes "all_nums P (Obj d)" and "all_nums P v"
  shows "all_nums P (Obj (setitem d k v))"
proof -
  have "all_nums P (snd e)" if "e \<in> set (setitem d k v)" for e
  proof -
    from that set_setitem [of d k v] have "e = (k, v) \<or> e \<in> set d" by auto
    with assms show ?thesis by auto
  qed
  then show ?thesis by simp
qed

lemma all_nums_getitem:
  assumes "getitem d k = Inr v" and "all_nums P (Obj d)"
  shows "all_nums P v"
proof -
  from getitem_in_set [OF assms(1)] assms(2) have "all_nums P (snd (k, v))"
    by fastforce
  then show ?thesis by simp
qed

lemma as_dict_Inr: "as_dict v = Inr d \<Longrightarrow> v = Obj d"
  by (cases v) simp_all

lemma all_nums_sub:
  "getitem d k = Inr v \<Longrightarrow> as_dict v = Inr d' \<Longrightarrow> all_nums P (Obj d) \<Longrightarrow> all_nums P (Obj d')"
  using all_nums_getitem as_dict_Inr by blast

lemma all_nums_merge_items:
  "all_nums P (Obj node) \<Longrightarrow> all_nums P (Obj yd) \<Longrightarrow> all_nums P (Obj (merge_items node yd))"
proof (induction yd arbitrary: node)
  case Nil
  then show ?case by simp
next
  case (Cons e yd)
  obtain k v where e: "e = (k, v)" by (cases e)
  from Cons.prems(2) e have v: "all_nums P v" and yd: "all_nums P (Obj yd)" by simp_all
  from all_nums_setitem [OF Cons.prems(1) v] have "all_nums P (Obj (setitem node k v))" .
  from Cons.IH [OF this yd] e show ?case by simp
qed

lemma all_nums_empty: "all_nums P (Obj [])"
  by simp

lemma store_nums:
  assumes "getitem res g = Inr rg" "as_dict rg = Inr rgd" "all_nums P (Obj res)"
    "all_nums P (Obj gd')"
  shows "all_nums P (Obj (setitem res g (Obj (setitem rgd s (Obj gd')))))"
proof -
  have "all_nums P (Obj rgd)" using all_nums_sub [OF assms(1,2,3)] .
  then have "all_nums P (Obj (setitem rgd s (Obj gd')))"
    using assms(4) by (rule all_nums_setitem)
  with assms(3) show ?thesis by (rule all_nums_setitem)
qed

lemma main_step_nums:
  assumes "main_step S st r = Inr st'" and "all_nums P (Obj (result st))"
    and "\<And>yd. year_data r = Some yd \<Longrightarrow> all_nums P (Obj yd)"
  shows "all_nums P (Obj (result st'))"
proof (cases "indent r = 0")
  case True
  with assms(1) have "result st' = (if has_key (result st) (label r) then result st
                           else setitem (result st) (label r) (Obj []))"
    by (auto simp: main_step_def)
  with assms(2) all_nums_setitem [OF assms(2) all_nums_empty] show ?thesis by simp
next
  case n0: False
  show ?thesis
  proof (cases "current_geo st")
    case None
    with n0 assms(1,2) show ?thesis by (simp add: main_step_def)
  next
    case (Some geo)
    show ?thesis
    proof (cases "indent r = 1")
      case True
      with n0 Some assms(1) obtain rg rgd where
        g: "getitem (result st) geo = Inr rg" "as_dict rg = Inr rgd" and
        res: "result st' = (if has_key rgd (label r) then result st
                 else setitem (result st) geo (Obj (setitem rgd (label r) (Obj []))))"
        by (auto simp: main_step_def err_bind_eq_Inr)
      from store_nums [OF g assms(2) all_nums_empty] res assms(2) show ?thesis by simp
    next
      case n1: False
      show ?thesis
      proof (cases "current_seg_type st")
        case None
        with n0 n1 Some assms(1,2) show ?thesis by (simp add: main_step_def)
      next
        case seg: (Some seg)
        from n0 n1 Some seg assms(1) obtain rg rgd gd geo_data where
          g: "getitem (result st) geo = Inr rg" "as_dict rg = Inr rgd" and
          s: "getitem rgd seg = Inr gd" "as_dict gd = Inr geo_data"
          by (auto simp: main_step_def err_bind_eq_Inr)
        have rgd: "all_nums P (Obj rgd)" using all_nums_sub [OF g assms(2)] .
        have gdn: "all_nums P (Obj geo_data)" using all_nums_sub [OF s rgd] .
        note store = store_nums [OF g assms(2)]
        show ?thesis
        proof (cases "indent r = 2")
          case i2: True
          show ?thesis
          proof (cases "year_data r")
            case None
            with n0 n1 Some seg g s i2 assms(1,2) show ?thesis
              by (auto simp: main_step_def)
          next
            case yd: (Some yd)
            have ydn: "all_nums P (Obj yd)" using assms(3) [OF yd] .
            show ?thesis
            proof (cases "(geo, seg, label r) \<in> S")
              case False
              with n0 n1 Some seg g s i2 yd assms(1)
              have "result st' = setitem (result st) geo
                      (Obj (setitem rgd seg (Obj (setitem geo_data (label r) (Obj yd)))))"
                by (auto simp: main_step_def)
              with store [OF all_nums_setitem [OF gdn ydn]] show ?thesis by simp
            next
              case True
              define gd1 where "gd1 = (if has_key geo_data (label r) then geo_data
                                 else setitem geo_data (label r) (Obj []))"
              have gd1n: "all_nums P (Obj gd1)"
                unfolding gd1_def using gdn all_nums_setitem [OF gdn all_nums_empty] by simp
              from True n0 n1 Some seg g s i2 yd assms(1) obtain node nd where
                n: "getitem gd1 (label r) = Inr node" "as_dict node = Inr nd" and
                res: "result st' = setitem (result st) geo
                      (Obj (setitem rgd seg (Obj (setitem gd1 (label r) (Obj (merge_items nd yd))))))"
                unfolding gd1_def by (auto simp: main_step_def err_bind_eq_Inr Let_def)
              have "all_nums P (Obj nd)" using all_nums_sub [OF n gd1n] .
              from all_nums_merge_items [OF this ydn]
              have "all_nums P (Obj (setitem gd1 (label r) (Obj (merge_items nd yd))))"
                by (rule all_nums_setitem [OF gd1n])
              with store res show ?thesis by simp
            qed
          qed
        next
          case n2: False
          show ?thesis
          proof (cases "indent r = 3")
            case False
            with n0 n1 n2 Some seg g s assms(1,2) show ?thesis
              by (auto simp: main_step_def)
          next
            case i3: True
            show ?thesis
            proof (cases "current_sub_seg st")
              case None
              with n0 n1 n2 i3 Some seg g s assms(1,2) show ?thesis
                by (auto simp: main_step_def)
            next
              case sub: (Some sub)
              show ?thesis
              proof (cases "year_data r")
                case None
                with n0 n1 n2 i3 Some seg sub g s assms(1,2) show ?thesis
                  by (auto simp: main_step_def)
              next
                case yd: (Some yd)
                have ydn: "all_nums P (Obj yd)" using assms(3) [OF yd] .
                define gd1 where "gd1 = (if has_key geo_data sub then geo_data
                                  else setitem geo_data sub (Obj []))"
                have gd1n: "all_nums P (Obj gd1)"
                  unfolding gd1_def using gdn all_nums_setitem [OF gdn all_nums_empty] by simp
                from n0 n1 n2 i3 Some seg sub g s yd assms(1) obtain node nd where
                  n: "getitem gd1 sub = Inr node" "as_dict node = Inr nd" and
                  res: "result st' = setitem (result st) geo
                      (Obj (setitem rgd seg (Obj (setitem gd1 sub
                         (Obj (setitem nd (label r) (Obj yd)))))))"
                  unfolding gd1_def by (auto simp: main_step_def err_bind_eq_Inr Let_def)
                have "all_nums P (Obj nd)" using all_nums_sub [OF n gd1n] .
                from all_nums_setitem [OF this ydn]
                have "all_nums P (Obj (setitem gd1 sub (Obj (setitem nd (label r) (Obj yd)))))"
                  by (rule all_nums_setitem [OF gd1n])
                with store res show ?thesis by simp
              qed
            qed
          qed
        qed
      qed
    qed
  qed
qed

lemma main_loop_nums:
  "main_loop S st rows = Inr st' \<Longrightarrow> all_nums P (Obj (result st)) \<Longrightarrow> rows_ok P rows \<Longrightarrow>
     all_nums P (Obj (result st'))"
proof (induction rows arbitrary: st)
  case Nil
  then show ?case by simp
next
  case (Cons r rows)
  from Cons.prems(1) obtain st1 where
    s: "main_step S st r = Inr st1" and l: "main_loop S st1 rows = Inr st'"
    by (auto simp: err_bind_eq_Inr)
  have "all_nums P (Obj (result st1))"
    using main_step_nums [OF s Cons.prems(2)] Cons.prems(3) by (simp add: rows_ok_def)
  moreover have "rows_ok P rows" using Cons.prems(3) by (simp add: rows_ok_def)
  ultimately show ?case using Cons.IH [OF l] by simp
qed

lemma build_json_from_value_sheet_nums:
  assumes "build_json_from_value_sheet rows = Inr tree" and "rows_ok P rows"
  shows "all_nums P (Obj tree)"
proof -
  from assms(1) obtain S st where "main_loop S init_state rows = Inr st" "tree = result st"
    by (auto simp: build_json_from_value_sheet_def err_bind_eq_Inr)
  with main_loop_nums [of S init_state rows st P] assms(2) show ?thesis
    by (simp add: init_state_def)
qed

text \<open>The volume tree of the indentation pipeline.\<close>

lemma walk_dict:
  "\<exists>res g'. walk_and_convert uniform g (Obj node) = (Obj res, g')"
  by (simp add: split_beta)

lemma no_year_key:
  "\<not> has_year_data node \<Longrightarrow> e \<in> set node \<Longrightarrow> \<not> isdigit (fst e)"
  by (induction node) (auto simp: has_year_data_def)

lemma year_nums_entries:
  assumes "list_all2 (converted_entry uniform own) node res"
    and "\<And>e x. e \<in> set node \<Longrightarrow> snd e = Num x \<Longrightarrow> isdigit (fst e) \<Longrightarrow>
           \<exists>y. own x = Num y \<and> P y"
    and "\<And>e c g. e \<in> set node \<Longrightarrow> snd e = Obj c \<Longrightarrow>
           year_nums P (fst (walk_and_convert uniform g (Obj c)))"
    and "\<And>x. \<exists>y. own x = Num y"
  shows "year_nums P (Obj res)"
  using assms(1,2,3)
proof (induction node res rule: list_all2_induct)
  case Nil
  then show ?case by simp
next
  case (Cons e node e' res)
  have rest: "year_nums P (Obj res)"
  proof (rule Cons.IH)
    fix e0 x
    assume "e0 \<in> set node" "snd e0 = Num x" "isdigit (fst e0)"
    then show "\<exists>y. own x = Num y \<and> P y" using Cons.prems(1) [of e0 x] by simp
  next
    fix e0 c g
    assume "e0 \<in> set node" "snd e0 = Obj c"
    then show "year_nums P (fst (walk_and_convert uniform g (Obj c)))"
      using Cons.prems(2) [of e0 c g] by (simp del: walk_and_convert.simps)
  qed
  have "case snd e' of Num v \<Rightarrow> isdigit (fst e') \<longrightarrow> P v | Obj c \<Rightarrow> year_nums P (snd e')"
  proof (cases "snd e")
    case (Num x)
    with Cons.hyps(1) have k: "fst e' = fst e" and v: "snd e' = own x"
      by (simp_all add: converted_entry_def)
    from assms(4) obtain y where y: "own x = Num y" by blast
    show ?thesis
    proof (cases "isdigit (fst e)")
      case True
      from Cons.prems(1) [of e x] Num True y have "P y" by auto
      with v y show ?thesis by simp
    next
      case False
      with k v y show ?thesis by simp
    qed
  next
    case (Obj c)
    with Cons.hyps(1) obtain gi where
      v: "snd e' = fst (walk_and_convert uniform gi (Obj c))"
      by (auto simp: converted_entry_def)
    from walk_dict [of uniform gi c] obtain r g' where
      w: "walk_and_convert uniform gi (Obj c) = (Obj r, g')" by blast
    have "year_nums P (fst (walk_and_convert uniform gi (Obj c)))"
      using Cons.prems(2) [of e c gi] Obj by (simp del: walk_and_convert.simps)
    with v w show ?thesis by (simp del: walk_and_convert.simps)
  qed
  with rest show ?case by simp
qed

lemma walk_year_nums:
  "year_nums whole (fst (walk_and_convert uniform g t))"
proof (induction t arbitrary: g)
  case (Num v)
  then show ?case by simp
next
  case (Obj node)
  have ih: "\<And>e c g. e \<in> set node \<Longrightarrow> snd e = Obj c \<Longrightarrow>
      year_nums whole (fst (walk_and_convert uniform g (Obj c)))"
  proof -
    fix e :: "string \<times> real json" and c g
    assume "e \<in> set node" and s: "snd e = Obj c"
    moreover have "snd e \<in> Basic_BNFs.snds e" by (cases e) simp
    ultimately have "year_nums whole (fst (walk_and_convert uniform g (snd e)))"
      using Obj.IH by blast
    with s show "year_nums whole (fst (walk_and_convert uniform g (Obj c)))"
      by (simp del: walk_and_convert.simps)
  qed
  show ?case
  proof (cases "has_year_data node")
    case True
    from walk_year_node [OF True, of uniform g] obtain res g' where
      w: "walk_and_convert uniform g (Obj node) = (Obj res, g')" and
      l: "list_all2 (converted_entry uniform (scaled (fst (draw_factor uniform g node)))) node res"
      by blast
    have "year_nums whole (Obj res)"
      using l
    proof (rule year_nums_entries)
      fix e x
      show "\<exists>y. scaled (fst (draw_factor uniform g node)) x = Num y \<and> whole y"
        by (simp add: scaled_def whole_py_round)
    next
      fix e c g
      assume "e \<in> set node" "snd e = Obj c"
      then show "year_nums whole (fst (walk_and_convert uniform g (Obj c)))" by (rule ih)
    next
      fix x
      show "\<exists>y. scaled (fst (draw_factor uniform g node)) x = Num y"
        by (simp add: scaled_def)
    qed
    with w show ?thesis by (simp del: walk_and_convert.simps)
  next
    case False
    from walk_container [OF False, of uniform g] obtain res g' where
      w: "walk_and_convert uniform g (Obj node) = (Obj res, g')" and
      l: "list_all2 (converted_entry uniform Num) node res"
      by blast
    have "year_nums whole (Obj res)"
      using l
    proof (rule year_nums_entries)
      fix e x
      assume "e \<in> set node" "isdigit (fst e)"
      with no_year_key [OF False] show "\<exists>y. Num x = Num y \<and> whole y" by blast
    next
      fix e c g
      assume "e \<in> set node" "snd e = Obj c"
      then show "year_nums whole (fst (walk_and_convert uniform g (Obj c)))" by (rule ih)
    next
      fix x :: real
      show "\<exists>y. Num x = Num y" by simp
    qed
    with w show ?thesis by (simp del: walk_and_convert.simps)
  qed
qed

subsection \<open>When hierarchy assembly returns\<close>

text \<open>
  The main loop raises nothing: the look-ups it makes are of keys it has stored.  The only
  exception of \<^verbatim>\<open>build_json_from_value_sheet\<close> is the UnboundLocalError of the pre-pass,
  raised exactly when an indent-2 row with year data that is followed by an indent-3 row
  (before any row of indentation 2 or shallower) stands before the first indent-0 row or
  before the first indent-1 row.
\<close>

lemma has_key_getitem: "has_key d k \<Longrightarrow> \<exists>v. getitem d k = Inr v"
  by (induction d) auto

lemma has_key_setitem: "has_key (setitem d k v) k' = (k' = k \<or> has_key d k')"
  by (induction d) (auto split: if_splits)

lemma getitem_setitem_other: "k' \<noteq> k \<Longrightarrow> getitem (setitem d k v) k' = getitem d k'"
  by (induction d) auto

lemma dicts1_get: "dicts1 d \<Longrightarrow> getitem d k = Inr v \<Longrightarrow> \<exists>c. v = Obj c"
  unfolding dicts1_def by (drule getitem_in_set) force

lemma dicts2_get: "dicts2 d \<Longrightarrow> getitem d k = Inr v \<Longrightarrow> \<exists>c. v = Obj c \<and> dicts1 c"
  unfolding dicts2_def by (drule getitem_in_set) force

lemma dicts3_get: "dicts3 d \<Longrightarrow> getitem d k = Inr v \<Longrightarrow> \<exists>c. v = Obj c \<and> dicts2 c"
  unfolding dicts3_def by (drule getitem_in_set) force

lemma dicts1_set: "dicts1 d \<Longrightarrow> dicts1 (setitem d k (Obj c))"
  unfolding dicts1_def using set_setitem [of d k "Obj c"] by auto

lemma dicts2_set: "dicts2 d \<Longrightarrow> dicts1 c \<Longrightarrow> dicts2 (setitem d k (Obj c))"
  unfolding dicts2_def using set_setitem [of d k "Obj c"] by auto

lemma dicts3_set: "dicts3 d \<Longrightarrow> dicts2 c \<Longrightarrow> dicts3 (setitem d k (Obj c))"
  unfolding dicts3_def using set_setitem [of d k "Obj c"] by auto

lemma dicts_empty: "dicts1 []" "dicts2 []" "dicts3 []"
  by (simp_all add: dicts1_def dicts2_def dicts3_def)

lemma prepass_completes_iff:
  "(\<exists>S. prepass g0 s0 rows acc = Inr S) =
     (\<forall>pre r post. rows = pre @ r # post \<and> indent r = 2 \<and> truthy (year_data r) \<and>
        scan_children post \<longrightarrow> scan_var g0 0 pre \<noteq> None \<and> scan_var s0 1 pre \<noteq> None)"
proof (induction rows arbitrary: g0 s0 acc)
  case Nil
  then show ?case by simp
next
  case (Cons x xs)
  let ?g = "if indent x = 0 then Some (label x) else g0"
  let ?s = "if indent x = 1 then Some (label x) else s0"
  let ?R = "\<lambda>g s ys. \<forall>pre r post. ys = pre @ r # post \<and> indent r = 2 \<and>
        truthy (year_data r) \<and> scan_children post \<longrightarrow>
        scan_var g 0 pre \<noteq> None \<and> scan_var s 1 pre \<noteq> None"
  have split: "?R g0 s0 (x # xs) =
      ((indent x = 2 \<and> truthy (year_data x) \<and> scan_children xs \<longrightarrow> g0 \<noteq> None \<and> s0 \<noteq> None)
       \<and> ?R ?g ?s xs)"
  proof
    assume a: "?R g0 s0 (x # xs)"
    have "indent x = 2 \<and> truthy (year_data x) \<and> scan_children xs \<longrightarrow> g0 \<noteq> None \<and> s0 \<noteq> None"
      using a [rule_format, of "[]" x xs] by (simp add: scan_var_Nil)
    moreover have "?R ?g ?s xs"
    proof (intro allI impI)
      fix pre r post
      assume "xs = pre @ r # post \<and> indent r = 2 \<and> truthy (year_data r) \<and> scan_children post"
      then have "x # xs = (x # pre) @ r # post \<and> indent r = 2 \<and> truthy (year_data r) \<and>
          scan_children post" by simp
      from a [rule_format, OF this]
      show "scan_var ?g 0 pre \<noteq> None \<and> scan_var ?s 1 pre \<noteq> None"
        by (simp add: scan_var_Cons)
    qed
    ultimately show "(indent x = 2 \<and> truthy (year_data x) \<and> scan_children xs \<longrightarrow>
        g0 \<noteq> None \<and> s0 \<noteq> None) \<and> ?R ?g ?s xs" ..
  next
    assume b: "(indent x = 2 \<and> truthy (year_data x) \<and> scan_children xs \<longrightarrow>
        g0 \<noteq> None \<and> s0 \<noteq> None) \<and> ?R ?g ?s xs"
    show "?R g0 s0 (x # xs)"
    proof (intro allI impI)
      fix pre r post
      assume c: "x # xs = pre @ r # post \<and> indent r = 2 \<and> truthy (year_data r) \<and>
          scan_children post"
      show "scan_var g0 0 pre \<noteq> None \<and> scan_var s0 1 pre \<noteq> None"
      proof (cases pre)
        case Nil
        with b c show ?thesis by (simp add: scan_var_Nil)
      next
        case (Cons y pre')
        with c have "xs = pre' @ r # post \<and> indent r = 2 \<and> truthy (year_data r) \<and>
            scan_children post" and y: "y = x" by simp_all
        from b [THEN conjunct2, rule_format, OF this(1)] Cons y show ?thesis
          by (simp add: scan_var_Cons)
      qed
    qed
  qed
  have ih: "(\<exists>S. prepass g s xs a = Inr S) = ?R g s xs" for g s a
    by (rule Cons.IH)
  show ?case
  proof (cases "indent x = 2 \<and> truthy (year_data x)")
    case True
    then have gs: "?g = g0" "?s = s0" by simp_all
    show ?thesis
    proof (cases "scan_children xs")
      case False
      with True have "(\<exists>S. prepass g0 s0 (x # xs) acc = Inr S) = ?R g0 s0 xs"
        by (simp add: ih)
      with True False gs show ?thesis unfolding split by simp
    next
      case sc: True
      show ?thesis
      proof (cases g0)
        case None
        with True sc show ?thesis unfolding split by simp
      next
        case g: (Some g)
        show ?thesis
        proof (cases s0)
          case None
          with True sc g show ?thesis unfolding split by simp
        next
          case (Some s)
          with True sc g have "(\<exists>S. prepass g0 s0 (x # xs) acc = Inr S) = ?R g0 s0 xs"
            by (simp add: ih)
          with True sc g Some gs show ?thesis unfolding split by simp
        qed
      qed
    qed
  next
    case False
    then have "(\<exists>S. prepass g0 s0 (x # xs) acc = Inr S) = ?R ?g ?s xs"
      by (auto simp: ih)
    with False show ?thesis unfolding split by auto
  qed
qed

lemma main_step_total:
  assumes "wf_state st"
  shows "\<exists>st'. main_step S st r = Inr st' \<and> wf_state st'"
proof (cases "indent r = 0")
  case True
  have d: "dicts3 (setitem (result st) (label r) (Obj []))"
    using assms dicts3_set dicts_empty(2) unfolding wf_state_def by blast
  from True assms d show ?thesis
    by (simp add: main_step_def wf_state_def has_key_setitem)
next
  case n0: False
  show ?thesis
  proof (cases "current_geo st")
    case None
    with n0 assms show ?thesis by (simp add: main_step_def)
  next
    case (Some geo)
    from assms Some have d3: "dicts3 (result st)" and hk: "has_key (result st) geo"
      by (simp_all add: wf_state_def)
    from has_key_getitem [OF hk] dicts3_get [OF d3] obtain rgd where
      g: "getitem (result st) geo = Inr (Obj rgd)" and d2: "dicts2 rgd" by blast
    show ?thesis
    proof (cases "indent r = 1")
      case True
      have "dicts3 (setitem (result st) geo (Obj (setitem rgd (label r) (Obj []))))"
        by (intro dicts3_set d3 dicts2_set d2 dicts_empty)
      with True n0 Some g d3 hk show ?thesis
        by (auto simp: main_step_def wf_state_def has_key_setitem getitem_setitem_same)
    next
      case n1: False
      show ?thesis
      proof (cases "current_seg_type st")
        case None
        with n0 n1 Some assms show ?thesis by (simp add: main_step_def)
      next
        case seg: (Some seg)
        from assms Some seg g have hs: "has_key rgd seg" by (simp add: wf_state_def)
        from has_key_getitem [OF hs] dicts2_get [OF d2] obtain gd where
          s: "getitem rgd seg = Inr (Obj gd)" and d1: "dicts1 gd" by blast
        have stored: "dicts3 (setitem (result st) geo (Obj (setitem rgd seg (Obj gd'))))"
          if "dicts1 gd'" for gd'
          by (intro dicts3_set d3 dicts2_set d2 that)
        have keep: "wf_state (st\<lparr>current_sub_seg := cs, result := setitem (result st) geo
                        (Obj (setitem rgd seg (Obj gd')))\<rparr>)"
          if "dicts1 gd'" for gd' cs
          using stored [OF that] Some seg
          by (simp add: wf_state_def has_key_setitem getitem_setitem_same)
        have keep3: "wf_state (st\<lparr>result := setitem (result st) geo
                        (Obj (setitem rgd seg (Obj gd')))\<rparr>)"
          if "dicts1 gd'" for gd'
          using stored [OF that] Some seg
          by (simp add: wf_state_def has_key_setitem getitem_setitem_same)
        have same: "wf_state (st\<lparr>current_sub_seg := cs\<rparr>)" for cs
          using assms by (simp add: wf_state_def)
        show ?thesis
        proof (cases "indent r = 2")
          case i2: True
          show ?thesis
          proof (cases "year_data r")
            case None
            with n0 n1 i2 Some seg g s same show ?thesis by (simp add: main_step_def)
          next
            case yd: (Some yd)
            show ?thesis
            proof (cases "(geo, seg, label r) \<in> S")
              case False
              have "dicts1 (setitem gd (label r) (Obj yd))" using d1 by (rule dicts1_set)
              from keep [OF this, of "Some (label r)"] False n0 n1 i2 Some seg g s yd
              show ?thesis by (simp add: main_step_def)
            next
              case True
              define gd1 where "gd1 = (if has_key gd (label r) then gd
                                 else setitem gd (label r) (Obj []))"
              have d11: "dicts1 gd1" unfolding gd1_def using d1 dicts1_set by auto
              have "has_key gd1 (label r)" unfolding gd1_def by (simp add: has_key_setitem)
              from has_key_getitem [OF this] dicts1_get [OF d11] obtain nd where
                n: "getitem gd1 (label r) = Inr (Obj nd)" by blast
              have "dicts1 (setitem gd1 (label r) (Obj (merge_items nd yd)))"
                using d11 by (rule dicts1_set)
              from keep [OF this, of "Some (label r)"] True n0 n1 i2 Some seg g s yd n
              show ?thesis unfolding gd1_def by (simp add: main_step_def)
            qed
          qed
        next
          case n2: False
          show ?thesis
          proof (cases "indent r = 3")
            case False
            with n0 n1 n2 Some seg g s assms show ?thesis by (simp add: main_step_def)
          next
            case i3: True
            show ?thesis
            proof (cases "current_sub_seg st")
              case None
              with n0 n1 n2 i3 Some seg g s assms show ?thesis by (simp add: main_step_def)
            next
              case sub: (Some sub)
              show ?thesis
              proof (cases "year_data r")
                case None
                with n0 n1 n2 i3 Some seg sub g s assms show ?thesis
                  by (simp add: main_step_def)
              next
                case yd: (Some yd)
                define gd1 where "gd1 = (if has_key gd sub then gd
                                  else setitem gd sub (Obj []))"
                have d11: "dicts1 gd1" unfolding gd1_def using d1 dicts1_set by auto
                have "has_key gd1 sub" unfolding gd1_def by (simp add: has_key_setitem)
                from has_key_getitem [OF this] dicts1_get [OF d11] obtain nd where
                  n: "getitem gd1 sub = Inr (Obj nd)" by blast
                have "dicts1 (setitem gd1 sub (Obj (setitem nd (label r) (Obj yd))))"
                  using d11 by (rule dicts1_set)
                from keep3 [OF this] n0 n1 n2 i3 Some seg sub g s yd n
                show ?thesis unfolding gd1_def by (simp add: main_step_def)
              qed
            qed
          qed
        qed
      qed
    qed
  qed
qed

lemma main_loop_total:
  "wf_state st \<Longrightarrow> \<exists>st'. main_loop S st rows = Inr st'"
proof (induction rows arbitrary: st)
  case Nil
  then show ?case by simp
next
  case (Cons r rows)
  from main_step_total [OF Cons.prems, of S r] obtain st1 where
    "main_step S st r = Inr st1" "wf_state st1" by blast
  with Cons.IH [of st1] show ?case by simp
qed

lemma build_json_from_value_sheet_returns_iff:
  "(\<exists>tree. build_json_from_value_sheet rows = Inr tree) =
     (\<forall>pre r post. rows = pre @ r # post \<and> indent r = 2 \<and> truthy (year_data r) \<and>
        children_follow post \<longrightarrow> last_label 0 pre \<noteq> None \<and> last_label 1 pre \<noteq> None)"
proof -
  have wf: "wf_state (init_state :: 'a build_state)"
    by (simp add: wf_state_def init_state_def dicts_empty)
  have "(\<exists>tree. build_json_from_value_sheet rows = Inr tree) =
      (\<exists>S. prepass None None rows {} = Inr S)"
  proof
    assume "\<exists>tree. build_json_from_value_sheet rows = Inr tree"
    then show "\<exists>S. prepass None None rows {} = Inr S"
      by (auto simp: build_json_from_value_sheet_def err_bind_eq_Inr)
  next
    assume "\<exists>S. prepass None None rows {} = Inr S"
    then obtain S where S: "prepass None None rows {} = Inr S" ..
    from main_loop_total [OF wf, of S rows] obtain st where
      "main_loop S init_state rows = Inr st" ..
    with S show "\<exists>tree. build_json_from_value_sheet rows = Inr tree"
      by (simp add: build_json_from_value_sheet_def)
  qed
  then show ?thesis
    unfolding prepass_completes_iff scan_var_None scan_children_iff by simp
qed

lemma build_json_from_value_sheet_error:
  assumes "build_json_from_value_sheet rows = Inl e"
  shows "e = UnboundLocalError"
proof (cases "prepass None None rows {}")
  case (Inl e')
  have "e' = UnboundLocalError" if "prepass g0 s0 rs acc = Inl e'" for g0 s0 rs acc
    using that
    by (induction rs arbitrary: g0 s0 acc) (auto split: if_splits option.splits)
  with Inl assms show ?thesis by (simp add: build_json_from_value_sheet_def)
next
  case (Inr S)
  have wf: "wf_state (init_state :: 'a build_state)"
    by (simp add: wf_state_def init_state_def dicts_empty)
  from main_loop_total [OF wf, of S rows] obtain st where
    "main_loop S init_state rows = Inr st" ..
  with Inr assms show ?thesis by (simp add: build_json_from_value_sheet_def)
qed

subsection \<open>Row extraction of the indentation pipeline\<close>

lemma cell_round1_spec:
  "c \<noteq> Empty \<Longrightarrow> cell_round1 c = (if numeric c then Inr (spec_written c) else Inl TypeError)"
  by (cases c) simp_all

lemma read_years_spec:
  assumes "distinct (map str_nat ys)" and "set (map str_nat ys) \<inter> fst ` set yd = {}"
  shows "read_years cells i ys yd has_data =
           (if \<forall>j < length ys. numeric (cells (2 + (i + j))) then
              Inr (yd @ map (\<lambda>(j, year). (str_nat year, Num (spec_written (cells (2 + j)))))
                          (enumerate i ys),
                   has_data \<or> (\<exists>j < length ys. cells (2 + (i + j)) \<noteq> Empty))
            else Inl TypeError)"
  using assms
proof (induction ys arbitrary: i yd has_data)
  case Nil
  then show ?case by simp
next
  case (Cons year ys)
  let ?c = "cells (2 + i)"
  from Cons.prems(2) have fresh: "\<not> has_key yd (str_nat year)" by (auto simp: has_key_iff)
  have dist: "distinct (map str_nat ys)" using Cons.prems(1) by simp
  have disj: "set (map str_nat ys) \<inter> fst ` set (setitem yd (str_nat year) v) = {}" for v
    using Cons.prems fresh by (auto simp: setitem_fresh)
  have all_split: "(\<forall>j < length (year # ys). P j) = (P 0 \<and> (\<forall>j < length ys. P (Suc j)))" for P
    by (auto simp: less_Suc_eq_0_disj)
  have ex_split: "(\<exists>j < length (year # ys). P j) = (P 0 \<or> (\<exists>j < length ys. P (Suc j)))" for P
    by (auto simp: less_Suc_eq_0_disj)
  have ih: "read_years cells (Suc i) ys (setitem yd (str_nat year) v) h =
           (if \<forall>j < length ys. numeric (cells (2 + (Suc i + j))) then
              Inr (setitem yd (str_nat year) v @
                   map (\<lambda>(j, year). (str_nat year, Num (spec_written (cells (2 + j)))))
                          (enumerate (Suc i) ys),
                   h \<or> (\<exists>j < length ys. cells (2 + (Suc i + j)) \<noteq> Empty))
            else Inl TypeError)" for v h
    by (rule Cons.IH [OF dist disj])
  show ?case
  proof (cases "?c = Empty")
    case True
    then show ?thesis
      unfolding all_split ex_split using ih [of "Num (Finite 0)" has_data] fresh
      by (simp add: setitem_fresh)
  next
    case False
    show ?thesis
    proof (cases "numeric ?c")
      case n: True
      with False have "cell_round1 ?c = Inr (spec_written ?c)" by (simp add: cell_round1_spec)
      with False n show ?thesis
        unfolding all_split ex_split using ih [of "Num (spec_written ?c)" True] fresh
        by (simp add: setitem_fresh)
    next
      case n: False
      with False have "cell_round1 ?c = Inl TypeError" by (simp add: cell_round1_spec)
      with False n show ?thesis unfolding all_split by simp
    qed
  qed
qed

lemma YEARS_list:
  "YEARS = [2021, 2022, 2023, 2024, 2025, 2026, 2027, 2028, 2029, 2030, 2031, 2032, 2033]"
  unfolding YEARS_def by (simp add: upt_rec)

lemma YEARS_labels:
  "map str_nat YEARS = [''2021'', ''2022'', ''2023'', ''2024'', ''2025'', ''2026'', ''2027'',
     ''2028'', ''2029'', ''2030'', ''2031'', ''2032'', ''2033'']"
  unfolding YEARS_list by (simp add: str_nat.simps)

lemma YEARS_distinct: "distinct (map str_nat YEARS)"
  unfolding YEARS_labels by simp

lemma read_row_years:
  "read_years (value_cell sr) 0 YEARS [] False =
     (if \<forall>i < length YEARS. numeric (value_cell sr (2 + i)) then
        Inr (map (\<lambda>(i, year). (str_nat year, Num (spec_written (value_cell sr (2 + i)))))
               (enumerate 0 YEARS),
             \<exists>i < length YEARS. value_cell sr (2 + i) \<noteq> Empty)
      else Inl TypeError)"
  using read_years_spec [OF YEARS_distinct, of "[]" "value_cell sr" 0 False] by simp

lemma read_rows_spec:
  "read_rows b sheet rows =
     (if \<forall>sr \<in> set (labelled sheet). \<forall>i < length YEARS. numeric (value_cell sr (2 + i))
      then Inr (rows @ map (spec_row b) (labelled sheet))
      else Inl TypeError)"
proof (induction sheet arbitrary: rows)
  case Nil
  then show ?case by (simp add: labelled_def)
next
  case (Cons sr sheet)
  show ?case
  proof (cases "label_cell sr = Empty")
    case True
    then have "labelled (sr # sheet) = labelled sheet" by (simp add: labelled_def)
    with True Cons.IH [of rows] show ?thesis by simp
  next
    case False
    then have l: "labelled (sr # sheet) = sr # labelled sheet" by (simp add: labelled_def)
    show ?thesis
    proof (cases "\<forall>i < length YEARS. numeric (value_cell sr (2 + i))")
      case n: False
      then have "read_years (value_cell sr) 0 YEARS [] False = Inl TypeError"
        by (auto simp: read_row_years)
      with False l n show ?thesis by auto
    next
      case n: True
      let ?yd = "map (\<lambda>(i, year). (str_nat year, Num (spec_written (value_cell sr (2 + i)))))
               (enumerate 0 YEARS)"
      let ?has = "\<exists>i < length YEARS. value_cell sr (2 + i) \<noteq> Empty"
      from n have "read_years (value_cell sr) 0 YEARS [] False = Inr (?yd, ?has)"
        by (auto simp: read_row_years)
      with False have "read_rows b (sr # sheet) rows =
          read_rows b sheet (rows @ [spec_row b sr])"
        by (auto simp: spec_row_def)
      with Cons.IH [of "rows @ [spec_row b sr]"] n l show ?thesis
        by (simp del: read_rows.simps)
    qed
  qed
qed

lemma read_value_sheet_spec: "read_value_sheet b sheet = spec_read_value_sheet b sheet"
  by (simp add: read_value_sheet_def spec_read_value_sheet_def read_rows_spec)

lemma spec_rows_ok:
  "rows_ok (\<lambda>v. \<exists>sr \<in> set (labelled sheet). \<exists>i < length YEARS.
                  v = spec_written (value_cell sr (2 + i)))
     (map (spec_row b) (labelled sheet))"
proof -
  have "all_nums (\<lambda>v. \<exists>sr \<in> set (labelled sheet). \<exists>i < length YEARS.
                  v = spec_written (value_cell sr (2 + i))) (Obj yd)"
    if sr: "sr \<in> set (labelled sheet)" and yd: "year_data (spec_row b sr) = Some yd" for sr yd
  proof -
    from yd have "yd = map (\<lambda>(i, year). (str_nat year, Num (spec_written (value_cell sr (2 + i)))))
                   (enumerate 0 YEARS)"
      by (simp add: spec_row_def split: if_splits)
    moreover have "i < length YEARS" if "(i, y) \<in> set (enumerate 0 YEARS)" for i y
      using that by (auto simp: in_set_enumerate_eq)
    ultimately show ?thesis using sr by (fastforce simp: in_set_enumerate_eq)
  qed
  then show ?thesis unfolding rows_ok_def by auto
qed

subsection \<open>The content of the trees of the column pipeline\<close>

lemma getitem_map_of:
  "getitem d k = (case map_of d k of None \<Rightarrow> Inl KeyError | Some v \<Rightarrow> Inr v)"
  by (induction d) auto

lemma has_key_map_of: "has_key d k = (map_of d k \<noteq> None)"
  by (induction d) auto

lemma map_of_setitem: "map_of (setitem d k v) = (map_of d)(k \<mapsto> v)"
  by (induction d) (auto simp: fun_eq_iff)

lemma lookup3_map_of:
  "lookup3 data geo seg sub =
     (case map_of data geo of
        Some (Obj dg) \<Rightarrow>
          (case map_of dg seg of Some (Obj sg) \<Rightarrow> map_of sg sub | _ \<Rightarrow> None)
      | _ \<Rightarrow> None)"
  by (simp add: lookup3_def getitem_map_of split: option.splits json.splits)

lemma lookup3_cong:
  "map_of d geo = map_of d' geo \<Longrightarrow> lookup3 d geo seg sub = lookup3 d' geo seg sub"
  by (simp add: lookup3_map_of)

lemma last_match_Cons:
  "(case filter Q (rc # recs) of [] \<Rightarrow> a | r # rs \<Rightarrow> Some (f (last (r # rs)))) =
     (case filter Q recs of [] \<Rightarrow> (if Q rc then Some (f rc) else a)
      | r # rs \<Rightarrow> Some (f (last (r # rs))))"
  by (cases "filter Q recs") simp_all

lemma spec_rounded_Nil: "spec_rounded rnd vals [] = []"
  by (simp add: spec_rounded_def)

lemma spec_rounded_Cons:
  "spec_rounded rnd vals (yr # yrs) =
     (case map_of vals yr of
        None \<Rightarrow> spec_rounded rnd vals yrs
      | Some x \<Rightarrow> (case rnd x of Inl e \<Rightarrow> spec_rounded rnd vals yrs
                   | Inr y \<Rightarrow> (yr, Num y) # spec_rounded rnd vals yrs))"
  by (simp add: spec_rounded_def split: option.splits sum.splits)

lemma rounded_values_spec:
  assumes "rounded_values rnd vals yrs acc = Inr rv" and "distinct yrs"
    and "set yrs \<inter> fst ` set acc = {}"
  shows "rv = acc @ spec_rounded rnd vals yrs"
  using assms
proof (induction yrs arbitrary: acc)
  case Nil
  then show ?case by (simp add: spec_rounded_Nil)
next
  case (Cons yr yrs)
  show ?case
  proof (cases "map_of vals yr")
    case None
    with Cons.prems(1) have "rounded_values rnd vals yrs acc = Inr rv"
      by (simp add: has_key_map_of)
    from Cons.IH [OF this] Cons.prems(2,3) None show ?thesis
      by (simp add: spec_rounded_Cons)
  next
    case (Some x)
    with Cons.prems(1) obtain y where y: "rnd x = Inr y"
      and r: "rounded_values rnd vals yrs (setitem acc yr (Num y)) = Inr rv"
      by (auto simp: has_key_map_of getitem_map_of err_bind_eq_Inr)
    from Cons.prems(3) have "\<not> has_key acc yr" by (auto simp: has_key_iff)
    then have s: "setitem acc yr (Num y) = acc @ [(yr, Num y)]" by (rule setitem_fresh)
    have "set yrs \<inter> fst ` set (acc @ [(yr, Num y)]) = {}"
      using Cons.prems(2,3) by auto
    from Cons.IH [OF r [unfolded s] _ this] Cons.prems(2) Some y show ?thesis
      by (simp add: spec_rounded_Cons)
  qed
qed

lemma rounds_ok_Cons:
  "rounds_ok rnd (yr # yrs) rc =
     ((case map_of (values' rc) yr of None \<Rightarrow> True
       | Some x \<Rightarrow> (case rnd x of Inl e \<Rightarrow> False | Inr y \<Rightarrow> True))
      \<and> rounds_ok rnd yrs rc)"
  by (simp add: rounds_ok_def)

lemma rounded_values_returns_iff:
  "(\<exists>rv. rounded_values rnd (values' rc) yrs acc = Inr rv) = rounds_ok rnd yrs rc"
proof (induction yrs arbitrary: acc)
  case Nil
  then show ?case by (simp add: rounds_ok_def)
next
  case (Cons yr yrs)
  show ?case
  proof (cases "map_of (values' rc) yr")
    case None
    with Cons.IH [of acc] show ?thesis by (simp add: has_key_map_of rounds_ok_Cons)
  next
    case (Some x)
    show ?thesis
    proof (cases "rnd x")
      case (Inl e)
      with Some show ?thesis by (simp add: has_key_map_of getitem_map_of rounds_ok_Cons)
    next
      case (Inr y)
      with Some Cons.IH [of "setitem acc yr (Num y)"] show ?thesis
        by (simp add: has_key_map_of getitem_map_of rounds_ok_Cons)
    qed
  qed
qed

lemma group_by_region_spec:
  "\<exists>rr'. group_by_region recs rr = Inr rr' \<and>
     (\<forall>g. map_of rr' g =
        (if [rc \<leftarrow> recs. region rc = g] = [] then map_of rr g
         else Some ((case map_of rr g of None \<Rightarrow> [] | Some l \<Rightarrow> l)
                     @ [rc \<leftarrow> recs. region rc = g])))"
proof (induction recs arbitrary: rr)
  case Nil
  then show ?case by simp
next
  case (Cons rc recs)
  define rr1 where "rr1 = (if has_key rr (region rc) then rr else setitem rr (region rc) [])"
  define l where "l = (case map_of rr (region rc) of None \<Rightarrow> [] | Some l \<Rightarrow> l)"
  have g: "getitem rr1 (region rc) = Inr l"
    unfolding rr1_def l_def
    by (auto simp: getitem_map_of has_key_map_of map_of_setitem split: option.splits)
  have m: "map_of (setitem rr1 (region rc) (l @ [rc])) = (map_of rr)(region rc \<mapsto> l @ [rc])"
    unfolding rr1_def by (simp add: map_of_setitem)
  from Cons.IH [of "setitem rr1 (region rc) (l @ [rc])"] obtain rr' where
    r: "group_by_region recs (setitem rr1 (region rc) (l @ [rc])) = Inr rr'" and
    c: "\<And>g. map_of rr' g =
        (if [rc \<leftarrow> recs. region rc = g] = []
         then map_of (setitem rr1 (region rc) (l @ [rc])) g
         else Some ((case map_of (setitem rr1 (region rc) (l @ [rc])) g of
                       None \<Rightarrow> [] | Some l \<Rightarrow> l)
                     @ [rc \<leftarrow> recs. region rc = g]))"
    by blast
  have "group_by_region (rc # recs) rr = Inr rr'"
    using g r unfolding rr1_def by (simp add: Let_def)
  moreover have "map_of rr' g =
        (if [rc \<leftarrow> rc # recs. region rc = g] = [] then map_of rr g
         else Some ((case map_of rr g of None \<Rightarrow> [] | Some l \<Rightarrow> l)
                     @ [rc \<leftarrow> rc # recs. region rc = g]))" for g
    unfolding c [of g] m by (simp add: l_def)
  ultimately show ?case by blast
qed

lemma store3:
  assumes "getitem data geo = Inr dg" and "as_dict dg = Inr dgd"
    and "getitem (if has_key dgd s then dgd else setitem dgd s (Obj [])) s = Inr sg"
    and "as_dict sg = Inr sgd"
  shows "lookup3 (setitem data geo
            (Obj (setitem (if has_key dgd s then dgd else setitem dgd s (Obj [])) s
                    (Obj (setitem sgd sb v))))) geo seg sub =
           (if seg = s \<and> sub = sb then Some v else lookup3 data geo seg sub)"
proof -
  from assms(1,2) have d: "map_of data geo = Some (Obj dgd)"
    by (auto simp: getitem_map_of dest!: as_dict_Inr split: option.splits)
  from assms(3,4) have s: "map_of dgd s = (if has_key dgd s then Some (Obj sgd) else None)"
    and e: "\<not> has_key dgd s \<Longrightarrow> sgd = []"
    by (auto simp: getitem_map_of has_key_map_of map_of_setitem dest!: as_dict_Inr
        split: option.splits if_splits)
  show ?thesis
    using d s e by (auto simp: lookup3_map_of map_of_setitem)
qed

lemma add_segments_spec:
  assumes "add_segments rnd years geo recs data = Inr data'" and "distinct years"
  shows "(\<forall>g. g \<noteq> geo \<longrightarrow> map_of data' g = map_of data g) \<and>
         (\<forall>seg sub. lookup3 data' geo seg sub =
            (case [rc \<leftarrow> recs. segment rc = seg \<and> subsegment rc = sub \<and>
                                seg \<notin> {''By Region'', ''By Country''}] of
               [] \<Rightarrow> lookup3 data geo seg sub
             | r # rs \<Rightarrow> Some (Obj (spec_rounded rnd (values' (last (r # rs))) years))))"
  using assms(1)
proof (induction recs arbitrary: data)
  case Nil
  then show ?case by simp
next
  case (Cons rc recs)
  show ?case
  proof (cases "segment rc \<in> {''By Region'', ''By Country''}")
    case True
    with Cons.prems have "add_segments rnd years geo recs data = Inr data'" by simp
    from Cons.IH [OF this] True show ?thesis
      unfolding last_match_Cons by auto
  next
    case False
    define dgd1 where "dgd1 = (\<lambda>dgd :: 'a dict. if has_key dgd (segment rc) then dgd
                       else setitem dgd (segment rc) (Obj []))"
    from False Cons.prems obtain dg dgd rv sg sgd where
      g: "getitem data geo = Inr dg" "as_dict dg = Inr dgd" and
      rv: "rounded_values rnd (values' rc) years [] = Inr rv" and
      s: "getitem (dgd1 dgd) (segment rc) = Inr sg" "as_dict sg = Inr sgd" and
      r: "add_segments rnd years geo recs
            (setitem data geo (Obj (setitem (dgd1 dgd) (segment rc)
               (Obj (setitem sgd (subsegment rc) (Obj rv)))))) = Inr data'"
      unfolding dgd1_def by (auto simp: err_bind_eq_Inr Let_def)
    let ?data1 = "setitem data geo (Obj (setitem (dgd1 dgd) (segment rc)
               (Obj (setitem sgd (subsegment rc) (Obj rv)))))"
    from rounded_values_spec [OF rv assms(2)] have rv': "rv = spec_rounded rnd (values' rc) years"
      by simp
    have l1: "lookup3 ?data1 geo seg sub =
        (if seg = segment rc \<and> sub = subsegment rc then Some (Obj rv)
         else lookup3 data geo seg sub)" for seg sub
      using store3 [OF g s [unfolded dgd1_def]] unfolding dgd1_def .
    have o1: "g \<noteq> geo \<Longrightarrow> map_of ?data1 g = map_of data g" for g
      by (simp add: map_of_setitem)
    from Cons.IH [OF r] have
      o: "\<And>g. g \<noteq> geo \<Longrightarrow> map_of data' g = map_of ?data1 g" and
      l: "\<And>seg sub. lookup3 data' geo seg sub =
            (case [rc \<leftarrow> recs. segment rc = seg \<and> subsegment rc = sub \<and>
                                seg \<notin> {''By Region'', ''By Country''}] of
               [] \<Rightarrow> lookup3 ?data1 geo seg sub
             | r # rs \<Rightarrow> Some (Obj (spec_rounded rnd (values' (last (r # rs))) years)))"
      by blast+
    have "lookup3 data' geo seg sub =
            (case [rc \<leftarrow> rc # recs. segment rc = seg \<and> subsegment rc = sub \<and>
                                seg \<notin> {''By Region'', ''By Country''}] of
               [] \<Rightarrow> lookup3 data geo seg sub
             | r # rs \<Rightarrow> Some (Obj (spec_rounded rnd (values' (last (r # rs))) years)))"
      for seg sub
      unfolding last_match_Cons l [of seg sub] l1 [of seg sub] using False rv'
      by (auto split: list.splits)
    with o o1 show ?thesis by simp
  qed
qed

lemma by_region_loop_spec:
  assumes "by_region_loop rnd years recs acc = Inr d" and "distinct years"
  shows "map_of d sub =
           (case [rc \<leftarrow> recs. segment rc = ''By Region'' \<and>
                               normalize_label (subsegment rc) = sub] of
              [] \<Rightarrow> map_of acc sub
            | r # rs \<Rightarrow> Some (Obj (spec_rounded rnd (values' (last (r # rs))) years)))"
  using assms(1)
proof (induction recs arbitrary: acc)
  case Nil
  then show ?case by simp
next
  case (Cons rc recs)
  show ?case
  proof (cases "segment rc = ''By Region''")
    case False
    with Cons.prems have "by_region_loop rnd years recs acc = Inr d" by simp
    from Cons.IH [OF this] False show ?thesis unfolding last_match_Cons by simp
  next
    case True
    with Cons.prems obtain rv where
      rv: "rounded_values rnd (values' rc) years [] = Inr rv" and
      r: "by_region_loop rnd years recs
            (setitem acc (normalize_label (subsegment rc)) (Obj rv)) = Inr d"
      by (auto simp: err_bind_eq_Inr)
    from rounded_values_spec [OF rv assms(2)] have "rv = spec_rounded rnd (values' rc) years"
      by simp
    with Cons.IH [OF r] True show ?thesis
      unfolding last_match_Cons by (auto simp: map_of_setitem split: list.splits)
  qed
qed

lemma by_country_loop_spec:
  assumes "by_country_loop rnd years recs acc = Inr d" and "distinct years"
  shows "map_of d sub =
           (case [rc \<leftarrow> recs. segment rc = ''By Country'' \<and> subsegment rc = sub] of
              [] \<Rightarrow> map_of acc sub
            | r # rs \<Rightarrow> Some (Obj (spec_rounded rnd (values' (last (r # rs))) years)))"
  using assms(1)
proof (induction recs arbitrary: acc)
  case Nil
  then show ?case by simp
next
  case (Cons rc recs)
  show ?case
  proof (cases "segment rc = ''By Country''")
    case False
    with Cons.prems have "by_country_loop rnd years recs acc = Inr d" by simp
    from Cons.IH [OF this] False show ?thesis unfolding last_match_Cons by simp
  next
    case True
    with Cons.prems obtain rv where
      rv: "rounded_values rnd (values' rc) years [] = Inr rv" and
      r: "by_country_loop rnd years recs (setitem acc (subsegment rc) (Obj rv)) = Inr d"
      by (auto simp: err_bind_eq_Inr)
    from rounded_values_spec [OF rv assms(2)] have "rv = spec_rounded rnd (values' rc) years"
      by simp
    with Cons.IH [OF r] True show ?thesis
      unfolding last_match_Cons by (auto simp: map_of_setitem split: list.splits)
  qed
qed

lemma set_under_spec:
  assumes "set_under data geo key d = Inr data'"
  shows "g \<noteq> geo \<Longrightarrow> map_of data' g = map_of data g"
    and "lookup3 data' geo seg sub =
           (if seg = key then map_of d sub else lookup3 data geo seg sub)"
proof -
  from assms obtain dgd where
    g: "map_of data geo = Some (Obj dgd)" and
    r: "data' = setitem data geo (Obj (setitem dgd key (Obj d)))"
    by (auto simp: set_under_def err_bind_eq_Inr getitem_map_of dest!: as_dict_Inr
        split: option.splits)
  show "g \<noteq> geo \<Longrightarrow> map_of data' g = map_of data g"
    unfolding r by (simp add: map_of_setitem)
  show "lookup3 data' geo seg sub =
           (if seg = key then map_of d sub else lookup3 data geo seg sub)"
    unfolding r using g by (simp add: lookup3_map_of map_of_setitem)
qed

lemma put_under_spec:
  assumes "(if d \<noteq> [] then set_under data geo key d else Inr data) = Inr data'"
    and "\<And>sub. lookup3 data geo key sub = None"
  shows "g \<noteq> geo \<Longrightarrow> map_of data' g = map_of data g"
    and "lookup3 data' geo seg sub =
           (if seg = key then map_of d sub else lookup3 data geo seg sub)"
proof -
  show "g \<noteq> geo \<Longrightarrow> map_of data' g = map_of data g"
    using assms(1) set_under_spec(1) [of data geo key d data' g]
    by (cases "d = []") simp_all
  show "lookup3 data' geo seg sub =
           (if seg = key then map_of d sub else lookup3 data geo seg sub)"
    using assms set_under_spec(2) [of data geo key d data' seg sub]
    by (cases "d = []") simp_all
qed

lemma geo_step_spec:
  assumes a: "add_segments rnd years geo geo_recs (setitem data geo (Obj [])) = Inr data1"
    and b: "(if geo = ''Global'' then
             err_bind (by_region_loop rnd years geo_recs []) (\<lambda>by_region.
               if by_region \<noteq> [] then set_under data1 ''Global'' ''By Region'' by_region
               else Inr data1)
           else Inr data1) = Inr data2"
    and c: "(if geo \<in> set REGIONS then
             err_bind (by_country_loop rnd years geo_recs []) (\<lambda>by_country.
               if by_country \<noteq> [] then set_under data2 geo ''By Country'' by_country
               else Inr data2)
           else Inr data2) = Inr data3"
    and y: "distinct years"
  shows "g \<noteq> geo \<Longrightarrow> map_of data3 g = map_of data g"
    and "lookup3 data3 geo seg sub =
           (case [rc \<leftarrow> geo_recs. segment rc = seg \<and>
                    (if seg = ''By Region''
                     then geo = ''Global'' \<and> normalize_label (subsegment rc) = sub
                     else if seg = ''By Country''
                     then geo \<in> set REGIONS \<and> subsegment rc = sub
                     else subsegment rc = sub)] of
              [] \<Rightarrow> None
            | r # rs \<Rightarrow> Some (Obj (spec_rounded rnd (values' (last (r # rs))) years)))"
proof -
  let ?w = "\<lambda>ms. case ms of [] \<Rightarrow> None
            | r # rs \<Rightarrow> Some (Obj (spec_rounded rnd (values' (last (r # rs))) years))"
  have l0: "lookup3 (setitem data geo (Obj [])) geo seg sub = None" for seg sub
    by (simp add: lookup3_map_of map_of_setitem)
  from add_segments_spec [OF a y] have
    o1: "\<And>g. g \<noteq> geo \<Longrightarrow> map_of data1 g = map_of data g" and
    l1: "\<And>seg sub. lookup3 data1 geo seg sub =
            ?w [rc \<leftarrow> geo_recs. segment rc = seg \<and> subsegment rc = sub \<and>
                                seg \<notin> {''By Region'', ''By Country''}]"
    unfolding l0 by (simp_all add: map_of_setitem)
  have n1: "lookup3 data1 geo ''By Region'' sub = None"
    "lookup3 data1 geo ''By Country'' sub = None" for sub
    unfolding l1 by simp_all
  have o2: "map_of data2 g = map_of data1 g" if "g \<noteq> geo" for g
  proof (cases "geo = ''Global''")
    case False
    with b show ?thesis by simp
  next
    case True
    with b obtain by_region where
      u: "(if by_region \<noteq> [] then set_under data1 geo ''By Region'' by_region
             else Inr data1) = Inr data2"
      by (auto simp: err_bind_eq_Inr)
    from put_under_spec(1) [OF u n1(1) that] show ?thesis .
  qed
  have l2: "lookup3 data2 geo seg sub =
      (if geo = ''Global'' \<and> seg = ''By Region''
       then ?w [rc \<leftarrow> geo_recs. segment rc = ''By Region'' \<and>
                               normalize_label (subsegment rc) = sub]
       else lookup3 data1 geo seg sub)" for seg sub
  proof (cases "geo = ''Global''")
    case False
    with b show ?thesis by simp
  next
    case True
    with b obtain by_region where
      l: "by_region_loop rnd years geo_recs [] = Inr by_region" and
      u: "(if by_region \<noteq> [] then set_under data1 geo ''By Region'' by_region
             else Inr data1) = Inr data2"
      by (auto simp: err_bind_eq_Inr)
    from put_under_spec(2) [OF u n1(1)] by_region_loop_spec [OF l y] True
    show ?thesis by (simp cong: list.case_cong)
  qed
  have n2: "lookup3 data2 geo ''By Country'' sub = None" for sub
    unfolding l2 using n1(2) by simp
  have o3: "map_of data3 g = map_of data2 g" if "g \<noteq> geo" for g
  proof (cases "geo \<in> set REGIONS")
    case False
    with c show ?thesis by simp
  next
    case True
    with c obtain by_country where
      u: "(if by_country \<noteq> [] then set_under data2 geo ''By Country'' by_country
             else Inr data2) = Inr data3"
      by (auto simp: err_bind_eq_Inr)
    from put_under_spec(1) [OF u n2 that] show ?thesis .
  qed
  have l3: "lookup3 data3 geo seg sub =
      (if geo \<in> set REGIONS \<and> seg = ''By Country''
       then ?w [rc \<leftarrow> geo_recs. segment rc = ''By Country'' \<and> subsegment rc = sub]
       else lookup3 data2 geo seg sub)" for seg sub
  proof (cases "geo \<in> set REGIONS")
    case False
    with c show ?thesis by simp
  next
    case True
    with c obtain by_country where
      l: "by_country_loop rnd years geo_recs [] = Inr by_country" and
      u: "(if by_country \<noteq> [] then set_under data2 geo ''By Country'' by_country
             else Inr data2) = Inr data3"
      by (auto simp: err_bind_eq_Inr)
    from put_under_spec(2) [OF u n2] by_country_loop_spec [OF l y] True
    show ?thesis by (simp cong: list.case_cong)
  qed
  show "g \<noteq> geo \<Longrightarrow> map_of data3 g = map_of data g"
    using o1 [of g] o2 [of g] o3 [of g] by simp
  consider "seg = ''By Region''" | "seg = ''By Country''"
    | "seg \<noteq> ''By Region''" "seg \<noteq> ''By Country''" by blast
  then show "lookup3 data3 geo seg sub =
           ?w [rc \<leftarrow> geo_recs. segment rc = seg \<and>
                    (if seg = ''By Region''
                     then geo = ''Global'' \<and> normalize_label (subsegment rc) = sub
                     else if seg = ''By Country''
                     then geo \<in> set REGIONS \<and> subsegment rc = sub
                     else subsegment rc = sub)]"
  proof cases
    case 1
    then show ?thesis unfolding l3 l2 using n1(1) [of sub] by (cases "geo = ''Global''") simp_all
  next
    case 2
    then show ?thesis unfolding l3 l2 using n1(2) [of sub]
      by (cases "geo \<in> set REGIONS") simp_all
  next
    case 3
    then show ?thesis unfolding l3 l2 l1 by simp
  qed
qed

lemma geo_loop_spec:
  assumes "geo_loop rnd years rr geos data = Inr data'" and "distinct geos"
    and y: "distinct years"
  shows "(\<forall>g. g \<notin> set geos \<or> map_of rr g = None \<longrightarrow> map_of data' g = map_of data g) \<and>
         (\<forall>g recs seg sub. g \<in> set geos \<and> map_of rr g = Some recs \<longrightarrow>
            lookup3 data' g seg sub =
              (case [rc \<leftarrow> recs. segment rc = seg \<and>
                    (if seg = ''By Region''
                     then g = ''Global'' \<and> normalize_label (subsegment rc) = sub
                     else if seg = ''By Country''
                     then g \<in> set REGIONS \<and> subsegment rc = sub
                     else subsegment rc = sub)] of
                 [] \<Rightarrow> None
               | r # rs \<Rightarrow> Some (Obj (spec_rounded rnd (values' (last (r # rs))) years))))"
  using assms(1,2)
proof (induction geos arbitrary: data)
  case Nil
  then show ?case by simp
next
  case (Cons geo geos)
  from Cons.prems(2) have fresh: "geo \<notin> set geos" and dist: "distinct geos" by simp_all
  show ?case
  proof (cases "map_of rr geo")
    case None
    with Cons.prems(1) have "geo_loop rnd years rr geos data = Inr data'"
      by (simp add: has_key_map_of)
    from Cons.IH [OF this dist] None fresh show ?thesis by auto
  next
    case (Some geo_recs)
    with Cons.prems(1) obtain data1 data2 data3 where
      a: "add_segments rnd years geo geo_recs (setitem data geo (Obj [])) = Inr data1" and
      b: "(if geo = ''Global'' then
             err_bind (by_region_loop rnd years geo_recs []) (\<lambda>by_region.
               if by_region \<noteq> [] then set_under data1 ''Global'' ''By Region'' by_region
               else Inr data1)
           else Inr data1) = Inr data2" and
      c: "(if geo \<in> set REGIONS then
             err_bind (by_country_loop rnd years geo_recs []) (\<lambda>by_country.
               if by_country \<noteq> [] then set_under data2 geo ''By Country'' by_country
               else Inr data2)
           else Inr data2) = Inr data3" and
      r: "geo_loop rnd years rr geos data3 = Inr data'"
      by (auto simp: err_bind_eq_Inr has_key_map_of getitem_map_of)
    note st = geo_step_spec [OF a b c y]
    from Cons.IH [OF r dist] have
      o: "\<And>g. g \<notin> set geos \<or> map_of rr g = None \<Longrightarrow> map_of data' g = map_of data3 g" and
      l: "\<And>g recs seg sub. g \<in> set geos \<Longrightarrow> map_of rr g = Some recs \<Longrightarrow>
            lookup3 data' g seg sub =
              (case [rc \<leftarrow> recs. segment rc = seg \<and>
                    (if seg = ''By Region''
                     then g = ''Global'' \<and> normalize_label (subsegment rc) = sub
                     else if seg = ''By Country''
                     then g \<in> set REGIONS \<and> subsegment rc = sub
                     else subsegment rc = sub)] of
                 [] \<Rightarrow> None
               | r # rs \<Rightarrow> Some (Obj (spec_rounded rnd (values' (last (r # rs))) years)))"
      by blast+
    have "map_of data' g = map_of data g"
      if "g \<notin> set (geo # geos) \<or> map_of rr g = None" for g
    proof -
      from that Some have "g \<noteq> geo" by auto
      with that o [of g] st(1) [of g] show ?thesis by auto
    qed
    moreover have "lookup3 data' g seg sub =
              (case [rc \<leftarrow> recs. segment rc = seg \<and>
                    (if seg = ''By Region''
                     then g = ''Global'' \<and> normalize_label (subsegment rc) = sub
                     else if seg = ''By Country''
                     then g \<in> set REGIONS \<and> subsegment rc = sub
                     else subsegment rc = sub)] of
                 [] \<Rightarrow> None
               | r # rs \<Rightarrow> Some (Obj (spec_rounded rnd (values' (last (r # rs))) years)))"
      if "g \<in> set (geo # geos)" "map_of rr g = Some recs" for g recs seg sub
    proof (cases "g = geo")
      case True
      with that(2) Some have rc: "recs = geo_recs" by simp
      from o [of geo] fresh have "lookup3 data' geo seg sub = lookup3 data3 geo seg sub"
        by (intro lookup3_cong) simp
      with st(2) [of seg sub] True rc show ?thesis by simp
    next
      case False
      with that have "g \<in> set geos" by simp
      from l [OF this that(2)] show ?thesis .
    qed
    ultimately show ?thesis by blast
  qed
qed

lemma all_geos_distinct: "distinct all_geos"
  by (simp add: all_geos_def REGIONS_def ALL_COUNTRIES_def GEO_HIERARCHY_def)

lemma build_with_spec:
  assumes "build_with rnd records years = Inr data" and "distinct years"
  shows "lookup3 data geo seg sub =
           (case filter (placed geo seg sub) records of
              [] \<Rightarrow> None
            | r # rs \<Rightarrow> Some (Obj (spec_rounded rnd (values' (last (r # rs))) years)))"
proof -
  from group_by_region_spec [of records "[]"] obtain rr where
    rr: "group_by_region records [] = Inr rr" and
    m: "\<And>g. map_of rr g = (if [rc \<leftarrow> records. region rc = g] = [] then None
                             else Some [rc \<leftarrow> records. region rc = g])"
    by auto
  from assms(1) rr have g: "geo_loop rnd years rr all_geos [] = Inr data"
    by (simp add: build_with_def)
  note sp = geo_loop_spec [OF g all_geos_distinct assms(2)]
  show ?thesis
  proof (cases "geo \<in> set all_geos \<and> [rc \<leftarrow> records. region rc = geo] \<noteq> []")
    case False
    with sp m [of geo] have "map_of data geo = None" by auto
    then have "lookup3 data geo seg sub = None" by (simp add: lookup3_map_of)
    moreover have "filter (placed geo seg sub) records = []"
      using False by (auto simp: placed_def filter_empty_conv)
    ultimately show ?thesis by simp
  next
    case True
    with m [of geo] have "map_of rr geo = Some [rc \<leftarrow> records. region rc = geo]" by simp
    with sp True have "lookup3 data geo seg sub =
              (case [rc \<leftarrow> [rc \<leftarrow> records. region rc = geo]. segment rc = seg \<and>
                    (if seg = ''By Region''
                     then geo = ''Global'' \<and> normalize_label (subsegment rc) = sub
                     else if seg = ''By Country''
                     then geo \<in> set REGIONS \<and> subsegment rc = sub
                     else subsegment rc = sub)] of
                 [] \<Rightarrow> None
               | r # rs \<Rightarrow> Some (Obj (spec_rounded rnd (values' (last (r # rs))) years)))"
      by blast
    moreover have "[rc \<leftarrow> [rc \<leftarrow> records. region rc = geo]. segment rc = seg \<and>
                    (if seg = ''By Region''
                     then geo = ''Global'' \<and> normalize_label (subsegment rc) = sub
                     else if seg = ''By Country''
                     then geo \<in> set REGIONS \<and> subsegment rc = sub
                     else subsegment rc = sub)] = filter (placed geo seg sub) records"
      using True unfolding filter_filter by (intro filter_cong refl) (auto simp: placed_def)
    ultimately show ?thesis by simp
  qed
qed

subsection \<open>When the assembly of the column pipeline returns\<close>

lemma rounded_values_returns:
  "rounds_ok rnd yrs rc \<Longrightarrow> \<exists>rv. rounded_values rnd (values' rc) yrs acc = Inr rv"
  by (simp add: rounded_values_returns_iff)

lemma rounded_values_ok:
  "rounded_values rnd (values' rc) yrs acc = Inr rv \<Longrightarrow> rounds_ok rnd yrs rc"
  using rounded_values_returns_iff [of rnd rc yrs acc] by blast

lemma add_segments_total:
  assumes "dicts2 data" and "has_key data geo"
    and "\<forall>rc \<in> set recs. segment rc \<notin> {''By Region'', ''By Country''} \<longrightarrow> rounds_ok rnd years rc"
  shows "\<exists>data'. add_segments rnd years geo recs data = Inr data' \<and> dicts2 data' \<and>
           has_key data' geo"
  using assms
proof (induction recs arbitrary: data)
  case Nil
  then show ?case by simp
next
  case (Cons rc recs)
  from Cons.prems(3) have rest:
    "\<forall>rc \<in> set recs. segment rc \<notin> {''By Region'', ''By Country''} \<longrightarrow> rounds_ok rnd years rc"
    by simp
  show ?case
  proof (cases "segment rc \<in> {''By Region'', ''By Country''}")
    case True
    with Cons.IH [OF Cons.prems(1,2) rest] show ?thesis by simp
  next
    case False
    from has_key_getitem [OF Cons.prems(2)] dicts2_get [OF Cons.prems(1)] obtain dgd where
      g: "getitem data geo = Inr (Obj dgd)" and d1: "dicts1 dgd" by blast
    define dgd1 where "dgd1 = (if has_key dgd (segment rc) then dgd
                       else setitem dgd (segment rc) (Obj []))"
    have d11: "dicts1 dgd1" unfolding dgd1_def using d1 dicts1_set by auto
    have "has_key dgd1 (segment rc)" unfolding dgd1_def by (simp add: has_key_setitem)
    from has_key_getitem [OF this] dicts1_get [OF d11] obtain sgd where
      s: "getitem dgd1 (segment rc) = Inr (Obj sgd)" by blast
    from False Cons.prems(3) have "rounds_ok rnd years rc" by simp
    from rounded_values_returns [OF this] obtain rv where
      rv: "rounded_values rnd (values' rc) years [] = Inr rv" ..
    let ?data1 = "setitem data geo (Obj (setitem dgd1 (segment rc)
                     (Obj (setitem sgd (subsegment rc) (Obj rv)))))"
    have "dicts1 (setitem dgd1 (segment rc) (Obj (setitem sgd (subsegment rc) (Obj rv))))"
      using d11 by (rule dicts1_set)
    with Cons.prems(1) have "dicts2 ?data1" by (rule dicts2_set)
    moreover have "has_key ?data1 geo" by (simp add: has_key_setitem)
    ultimately obtain data' where
      "add_segments rnd years geo recs ?data1 = Inr data'" "dicts2 data'" "has_key data' geo"
      using Cons.IH [of ?data1, OF _ _ rest] by blast
    with False g s rv show ?thesis unfolding dgd1_def by (simp add: Let_def)
  qed
qed

lemma add_segments_ok:
  "add_segments rnd years geo recs data = Inr data' \<Longrightarrow>
     \<forall>rc \<in> set recs. segment rc \<notin> {''By Region'', ''By Country''} \<longrightarrow> rounds_ok rnd years rc"
proof (induction recs arbitrary: data)
  case Nil
  then show ?case by simp
next
  case (Cons rc recs)
  show ?case
  proof (cases "segment rc \<in> {''By Region'', ''By Country''}")
    case True
    with Cons.prems have "add_segments rnd years geo recs data = Inr data'" by simp
    from Cons.IH [OF this] True show ?thesis by auto
  next
    case False
    from False Cons.prems obtain rv data1 where
      rv: "rounded_values rnd (values' rc) years [] = Inr rv" and
      r: "add_segments rnd years geo recs data1 = Inr data'"
      by (auto simp: err_bind_eq_Inr Let_def)
    from Cons.IH [OF r] rounded_values_ok [OF rv] show ?thesis by simp
  qed
qed

lemma by_region_loop_returns_iff:
  "(\<exists>d. by_region_loop rnd years recs acc = Inr d) =
     (\<forall>rc \<in> set recs. segment rc = ''By Region'' \<longrightarrow> rounds_ok rnd years rc)"
proof (induction recs arbitrary: acc)
  case Nil
  then show ?case by simp
next
  case (Cons rc recs)
  show ?case
  proof (cases "segment rc = ''By Region''")
    case False
    with Cons.IH [of acc] show ?thesis by simp
  next
    case True
    show ?thesis
    proof (cases "rounded_values rnd (values' rc) years []")
      case (Inl e)
      with rounded_values_returns_iff [of rnd rc years "[]"] have "\<not> rounds_ok rnd years rc"
        by simp
      with True Inl show ?thesis by simp
    next
      case (Inr rv)
      with rounded_values_ok have "rounds_ok rnd years rc" by blast
      with True Inr Cons.IH [of "setitem acc (normalize_label (subsegment rc)) (Obj rv)"]
      show ?thesis by simp
    qed
  qed
qed

lemma by_country_loop_returns_iff:
  "(\<exists>d. by_country_loop rnd years recs acc = Inr d) =
     (\<forall>rc \<in> set recs. segment rc = ''By Country'' \<longrightarrow> rounds_ok rnd years rc)"
proof (induction recs arbitrary: acc)
  case Nil
  then show ?case by simp
next
  case (Cons rc recs)
  show ?case
  proof (cases "segment rc = ''By Country''")
    case False
    with Cons.IH [of acc] show ?thesis by simp
  next
    case True
    show ?thesis
    proof (cases "rounded_values rnd (values' rc) years []")
      case (Inl e)
      with rounded_values_returns_iff [of rnd rc years "[]"] have "\<not> rounds_ok rnd years rc"
        by simp
      with True Inl show ?thesis by simp
    next
      case (Inr rv)
      with rounded_values_ok have "rounds_ok rnd years rc" by blast
      with True Inr Cons.IH [of "setitem acc (subsegment rc) (Obj rv)"]
      show ?thesis by simp
    qed
  qed
qed

lemma set_under_total:
  assumes "dicts2 data" and "has_key data geo"
  shows "\<exists>data'. set_under data geo key d = Inr data' \<and> dicts2 data' \<and> has_key data' geo"
proof -
  from has_key_getitem [OF assms(2)] dicts2_get [OF assms(1)] obtain dgd where
    g: "getitem data geo = Inr (Obj dgd)" and d1: "dicts1 dgd" by blast
  have "dicts1 (setitem dgd key (Obj d))" using d1 by (rule dicts1_set)
  with assms(1) have "dicts2 (setitem data geo (Obj (setitem dgd key (Obj d))))"
    by (rule dicts2_set)
  with g show ?thesis by (simp add: set_under_def has_key_setitem)
qed

lemma put_under_total:
  assumes "dicts2 data" and "has_key data geo"
  shows "\<exists>data'. (if d \<noteq> [] then set_under data geo key d else Inr data) = Inr data' \<and>
           dicts2 data' \<and> has_key data' geo"
  using assms set_under_total [OF assms, of key d] by (cases "d = []") simp_all

lemma geo_loop_total:
  assumes "dicts2 data"
    and "\<forall>g \<in> set geos. \<forall>recs. map_of rr g = Some recs \<longrightarrow>
           (\<forall>rc \<in> set recs.
              (if segment rc = ''By Region'' then g = ''Global''
               else if segment rc = ''By Country'' then g \<in> set REGIONS else True)
              \<longrightarrow> rounds_ok rnd years rc)"
  shows "\<exists>data'. geo_loop rnd years rr geos data = Inr data'"
  using assms
proof (induction geos arbitrary: data)
  case Nil
  then show ?case by simp
next
  case (Cons geo geos)
  from Cons.prems(2) have rest: "\<forall>g \<in> set geos. \<forall>recs. map_of rr g = Some recs \<longrightarrow>
           (\<forall>rc \<in> set recs.
              (if segment rc = ''By Region'' then g = ''Global''
               else if segment rc = ''By Country'' then g \<in> set REGIONS else True)
              \<longrightarrow> rounds_ok rnd years rc)"
    by simp
  show ?case
  proof (cases "map_of rr geo")
    case None
    with Cons.IH [OF Cons.prems(1) rest] show ?thesis by (simp add: has_key_map_of)
  next
    case (Some geo_recs)
    then have hk: "has_key rr geo" and gr: "getitem rr geo = Inr geo_recs"
      by (simp_all add: has_key_map_of getitem_map_of)
    from Cons.prems(2) Some have ok: "\<And>rc. rc \<in> set geo_recs \<Longrightarrow>
              (if segment rc = ''By Region'' then geo = ''Global''
               else if segment rc = ''By Country'' then geo \<in> set REGIONS else True)
              \<Longrightarrow> rounds_ok rnd years rc"
      by simp
    have "dicts2 (setitem data geo (Obj []))"
      using Cons.prems(1) dicts_empty(1) by (rule dicts2_set)
    moreover have "has_key (setitem data geo (Obj [])) geo" by (simp add: has_key_setitem)
    moreover have "\<forall>rc \<in> set geo_recs. segment rc \<notin> {''By Region'', ''By Country''} \<longrightarrow>
        rounds_ok rnd years rc"
      using ok by auto
    ultimately obtain data1 where
      a: "add_segments rnd years geo geo_recs (setitem data geo (Obj [])) = Inr data1" and
      d1: "dicts2 data1" and h1: "has_key data1 geo"
      using add_segments_total by blast
    have "\<exists>data2. (if geo = ''Global'' then
             err_bind (by_region_loop rnd years geo_recs []) (\<lambda>by_region.
               if by_region \<noteq> [] then set_under data1 ''Global'' ''By Region'' by_region
               else Inr data1)
           else Inr data1) = Inr data2 \<and> dicts2 data2 \<and> has_key data2 geo"
    proof (cases "geo = ''Global''")
      case False
      with d1 h1 show ?thesis by simp
    next
      case True
      with ok have "\<forall>rc \<in> set geo_recs. segment rc = ''By Region'' \<longrightarrow> rounds_ok rnd years rc"
        by simp
      with by_region_loop_returns_iff [of rnd years geo_recs "[]"] obtain by_region where
        l: "by_region_loop rnd years geo_recs [] = Inr by_region" by blast
      from put_under_total [OF d1 h1, of by_region "''By Region''"] True l show ?thesis
        by auto
    qed
    then obtain data2 where
      b: "(if geo = ''Global'' then
             err_bind (by_region_loop rnd years geo_recs []) (\<lambda>by_region.
               if by_region \<noteq> [] then set_under data1 ''Global'' ''By Region'' by_region
               else Inr data1)
           else Inr data1) = Inr data2" and
      d2: "dicts2 data2" and h2: "has_key data2 geo" by blast
    have "\<exists>data3. (if geo \<in> set REGIONS then
             err_bind (by_country_loop rnd years geo_recs []) (\<lambda>by_country.
               if by_country \<noteq> [] then set_under data2 geo ''By Country'' by_country
               else Inr data2)
           else Inr data2) = Inr data3 \<and> dicts2 data3"
    proof (cases "geo \<in> set REGIONS")
      case False
      with d2 show ?thesis by simp
    next
      case True
      with ok have "\<forall>rc \<in> set geo_recs. segment rc = ''By Country'' \<longrightarrow> rounds_ok rnd years rc"
        by simp
      with by_country_loop_returns_iff [of rnd years geo_recs "[]"] obtain by_country where
        l: "by_country_loop rnd years geo_recs [] = Inr by_country" by blast
      from put_under_total [OF d2 h2, of by_country "''By Country''"] True l show ?thesis
        by auto
    qed
    then obtain data3 where
      c: "(if geo \<in> set REGIONS then
             err_bind (by_country_loop rnd years geo_recs []) (\<lambda>by_country.
               if by_country \<noteq> [] then set_under data2 geo ''By Country'' by_country
               else Inr data2)
           else Inr data2) = Inr data3" and
      d3: "dicts2 data3" by blast
    from Cons.IH [OF d3 rest] obtain data' where
      r: "geo_loop rnd years rr geos data3 = Inr data'" ..
    have "geo_loop rnd years rr (geo # geos) data = Inr data'"
      using hk gr a b c r
      by (simp only: geo_loop.simps err_bind.simps if_False not_True_eq_False simp_thms)
    then show ?thesis ..
  qed
qed

lemma geo_loop_ok:
  assumes "geo_loop rnd years rr geos data = Inr data'"
  shows "\<forall>g \<in> set geos. \<forall>recs. map_of rr g = Some recs \<longrightarrow>
           (\<forall>rc \<in> set recs.
              (if segment rc = ''By Region'' then g = ''Global''
               else if segment rc = ''By Country'' then g \<in> set REGIONS else True)
              \<longrightarrow> rounds_ok rnd years rc)"
  using assms
proof (induction geos arbitrary: data)
  case Nil
  then show ?case by simp
next
  case (Cons geo geos)
  show ?case
  proof (cases "map_of rr geo")
    case None
    with Cons.prems have "geo_loop rnd years rr geos data = Inr data'"
      by (simp add: has_key_map_of)
    from Cons.IH [OF this] None show ?thesis by simp
  next
    case (Some geo_recs)
    with Cons.prems obtain data0 data1 data2 data3 where
      a: "add_segments rnd years geo geo_recs data0 = Inr data1" and
      b: "(if geo = ''Global'' then
             err_bind (by_region_loop rnd years geo_recs []) (\<lambda>by_region.
               if by_region \<noteq> [] then set_under data1 ''Global'' ''By Region'' by_region
               else Inr data1)
           else Inr data1) = Inr data2" and
      c: "(if geo \<in> set REGIONS then
             err_bind (by_country_loop rnd years geo_recs []) (\<lambda>by_country.
               if by_country \<noteq> [] then set_under data2 geo ''By Country'' by_country
               else Inr data2)
           else Inr data2) = Inr data3" and
      r: "geo_loop rnd years rr geos data3 = Inr data'"
      by (auto simp: err_bind_eq_Inr has_key_map_of getitem_map_of)
    note oa = add_segments_ok [OF a]
    have ob: "\<forall>rc \<in> set geo_recs. segment rc = ''By Region'' \<longrightarrow> rounds_ok rnd years rc"
      if "geo = ''Global''"
    proof -
      from b that obtain by_region where "by_region_loop rnd years geo_recs [] = Inr by_region"
        by (auto simp: err_bind_eq_Inr)
      with by_region_loop_returns_iff [of rnd years geo_recs "[]"] show ?thesis by blast
    qed
    have oc: "\<forall>rc \<in> set geo_recs. segment rc = ''By Country'' \<longrightarrow> rounds_ok rnd years rc"
      if "geo \<in> set REGIONS"
    proof -
      from c that obtain by_country where
        "by_country_loop rnd years geo_recs [] = Inr by_country"
        by (auto simp: err_bind_eq_Inr)
      with by_country_loop_returns_iff [of rnd years geo_recs "[]"] show ?thesis by blast
    qed
    have "rounds_ok rnd years rc"
      if "rc \<in> set geo_recs"
        "if segment rc = ''By Region'' then geo = ''Global''
         else if segment rc = ''By Country'' then geo \<in> set REGIONS else True" for rc
      using that oa ob oc by (auto split: if_splits)
    with Cons.IH [OF r] Some show ?thesis by simp
  qed
qed

lemma build_with_returns_iff:
  "(\<exists>data. build_with rnd records years = Inr data) =
     (\<forall>rc \<in> set records. used rc \<longrightarrow> rounds_ok rnd years rc)"
proof -
  from group_by_region_spec [of records "[]"] obtain rr where
    rr: "group_by_region records [] = Inr rr" and
    m: "\<And>g. map_of rr g = (if [rc \<leftarrow> records. region rc = g] = [] then None
                             else Some [rc \<leftarrow> records. region rc = g])"
    by auto
  have b: "build_with rnd records years = geo_loop rnd years rr all_geos []"
    using rr by (simp add: build_with_def)
  show ?thesis
  proof
    assume "\<exists>data. build_with rnd records years = Inr data"
    then obtain data where "geo_loop rnd years rr all_geos [] = Inr data" unfolding b ..
    note ok = geo_loop_ok [OF this]
    show "\<forall>rc \<in> set records. used rc \<longrightarrow> rounds_ok rnd years rc"
    proof (intro ballI impI)
      fix rc
      assume rc: "rc \<in> set records" and u: "used rc"
      from rc have "rc \<in> set [r \<leftarrow> records. region r = region rc]" by simp
      moreover from this m [of "region rc"] have
        "map_of rr (region rc) = Some [r \<leftarrow> records. region r = region rc]"
        by (auto simp: filter_empty_conv)
      moreover from u have "region rc \<in> set all_geos" by (simp add: used_def)
      ultimately show "rounds_ok rnd years rc"
        using ok u by (auto simp: used_def split: if_splits)
    qed
  next
    assume a: "\<forall>rc \<in> set records. used rc \<longrightarrow> rounds_ok rnd years rc"
    have "\<forall>g \<in> set all_geos. \<forall>recs. map_of rr g = Some recs \<longrightarrow>
           (\<forall>rc \<in> set recs.
              (if segment rc = ''By Region'' then g = ''Global''
               else if segment rc = ''By Country'' then g \<in> set REGIONS else True)
              \<longrightarrow> rounds_ok rnd years rc)"
    proof (intro ballI allI impI)
      fix g recs rc
      assume g: "g \<in> set all_geos" and "map_of rr g = Some recs" and rc: "rc \<in> set recs"
        and k: "if segment rc = ''By Region'' then g = ''Global''
               else if segment rc = ''By Country'' then g \<in> set REGIONS else True"
      with m [of g] have "recs = [r \<leftarrow> records. region r = g]" by (simp split: if_splits)
      with rc have "rc \<in> set records" "region rc = g" by simp_all
      with g k a show "rounds_ok rnd years rc" by (auto simp: used_def split: if_splits)
    qed
    from geo_loop_total [OF dicts_empty(2) this] show "\<exists>data. build_with rnd records years = Inr data"
      unfolding b .
  qed
qed

lemma placed_used: "placed geo seg sub rc \<Longrightarrow> used rc"
  by (auto simp: placed_def used_def split: if_splits)

lemma rounds_ok_round1: "rounds_ok (\<lambda>x. Inr (round1 x)) years rc"
  by (simp add: rounds_ok_def list_all_iff split: option.splits)

lemma round0_returns_iff: "(\<exists>n. round0 x = Inr n) = (\<exists>r. x = Finite r)"
  by (cases x) simp_all

subsection \<open>Where the numbers of the trees of the column pipeline come from\<close>

lemma rounded_values_nums:
  "rounded_values rnd vals yrs acc = Inr rv \<Longrightarrow> all_nums P (Obj acc) \<Longrightarrow>
     (\<And>x y. x \<in> snd ` set vals \<Longrightarrow> rnd x = Inr y \<Longrightarrow> P y) \<Longrightarrow> all_nums P (Obj rv)"
proof (induction yrs arbitrary: acc)
  case Nil
  then show ?case by simp
next
  case (Cons yr yrs)
  show ?case
  proof (cases "has_key vals yr")
    case False
    with Cons show ?thesis by simp
  next
    case True
    with Cons.prems(1) obtain x y where
      x: "getitem vals yr = Inr x" and y: "rnd x = Inr y" and
      r: "rounded_values rnd vals yrs (setitem acc yr (Num y)) = Inr rv"
      by (auto simp: err_bind_eq_Inr)
    from getitem_in_set [OF x] have "x \<in> snd ` set vals" by force
    from Cons.prems(3) [OF this y] have "all_nums P (Num y)" by simp
    with Cons.prems(2) have "all_nums P (Obj (setitem acc yr (Num y)))"
      by (rule all_nums_setitem)
    from Cons.IH [OF r this Cons.prems(3)] show ?thesis .
  qed
qed

lemma record_nums:
  assumes "rounded_values rnd (values' rc) years [] = Inr rv"
    and "\<forall>x \<in> snd ` set (values' rc). \<forall>y. rnd x = Inr y \<longrightarrow> P y"
  shows "all_nums P (Obj rv)"
  using rounded_values_nums [where P = P, OF assms(1) all_nums_empty] assms(2) by blast

lemma add_segments_nums:
  "add_segments rnd years geo recs data = Inr data' \<Longrightarrow> all_nums P (Obj data) \<Longrightarrow>
     \<forall>rc \<in> set recs. \<forall>x \<in> snd ` set (values' rc). \<forall>y. rnd x = Inr y \<longrightarrow> P y \<Longrightarrow>
     all_nums P (Obj data')"
proof (induction recs arbitrary: data)
  case Nil
  then show ?case by simp
next
  case (Cons rc recs)
  from Cons.prems(3) have
    here: "\<forall>x \<in> snd ` set (values' rc). \<forall>y. rnd x = Inr y \<longrightarrow> P y" and
    rest: "\<forall>rc \<in> set recs. \<forall>x \<in> snd ` set (values' rc). \<forall>y. rnd x = Inr y \<longrightarrow> P y"
    by simp_all
  show ?case
  proof (cases "segment rc \<in> {''By Region'', ''By Country''}")
    case True
    with Cons.prems(1) have "add_segments rnd years geo recs data = Inr data'" by simp
    from Cons.IH [OF this Cons.prems(2) rest] show ?thesis .
  next
    case False
    define dgd1 where "dgd1 = (\<lambda>dgd :: 'a dict. if has_key dgd (segment rc) then dgd
                       else setitem dgd (segment rc) (Obj []))"
    from False Cons.prems(1) obtain dg dgd rv sg sgd where
      g: "getitem data geo = Inr dg" "as_dict dg = Inr dgd" and
      rv: "rounded_values rnd (values' rc) years [] = Inr rv" and
      s: "getitem (dgd1 dgd) (segment rc) = Inr sg" "as_dict sg = Inr sgd" and
      r: "add_segments rnd years geo recs
            (setitem data geo (Obj (setitem (dgd1 dgd) (segment rc)
               (Obj (setitem sgd (subsegment rc) (Obj rv)))))) = Inr data'"
      unfolding dgd1_def by (auto simp: err_bind_eq_Inr Let_def)
    have dgdn: "all_nums P (Obj dgd)" using all_nums_sub [OF g Cons.prems(2)] .
    have d1n: "all_nums P (Obj (dgd1 dgd))"
      unfolding dgd1_def using dgdn all_nums_setitem [OF dgdn all_nums_empty] by simp
    have sgdn: "all_nums P (Obj sgd)" using all_nums_sub [OF s d1n] .
    have rvn: "all_nums P (Obj rv)" using rv here by (rule record_nums)
    have "all_nums P (Obj (setitem sgd (subsegment rc) (Obj rv)))"
      using sgdn rvn by (rule all_nums_setitem)
    with d1n have "all_nums P (Obj (setitem (dgd1 dgd) (segment rc)
               (Obj (setitem sgd (subsegment rc) (Obj rv)))))"
      by (rule all_nums_setitem)
    with Cons.prems(2)
    have "all_nums P (Obj (setitem data geo (Obj (setitem (dgd1 dgd) (segment rc)
               (Obj (setitem sgd (subsegment rc) (Obj rv)))))))"
      by (rule all_nums_setitem)
    from Cons.IH [OF r this rest] show ?thesis .
  qed
qed

lemma by_region_loop_nums:
  "by_region_loop rnd years recs acc = Inr d \<Longrightarrow> all_nums P (Obj acc) \<Longrightarrow>
     \<forall>rc \<in> set recs. \<forall>x \<in> snd ` set (values' rc). \<forall>y. rnd x = Inr y \<longrightarrow> P y \<Longrightarrow>
     all_nums P (Obj d)"
proof (induction recs arbitrary: acc)
  case Nil
  then show ?case by simp
next
  case (Cons rc recs)
  from Cons.prems(3) have
    here: "\<forall>x \<in> snd ` set (values' rc). \<forall>y. rnd x = Inr y \<longrightarrow> P y" and
    rest: "\<forall>rc \<in> set recs. \<forall>x \<in> snd ` set (values' rc). \<forall>y. rnd x = Inr y \<longrightarrow> P y"
    by simp_all
  show ?case
  proof (cases "segment rc = ''By Region''")
    case False
    with Cons.prems(1) have "by_region_loop rnd years recs acc = Inr d" by simp
    from Cons.IH [OF this Cons.prems(2) rest] show ?thesis .
  next
    case True
    with Cons.prems(1) obtain rv where
      rv: "rounded_values rnd (values' rc) years [] = Inr rv" and
      r: "by_region_loop rnd years recs
            (setitem acc (normalize_label (subsegment rc)) (Obj rv)) = Inr d"
      by (auto simp: err_bind_eq_Inr)
    have "all_nums P (Obj rv)" using rv here by (rule record_nums)
    with Cons.prems(2)
    have "all_nums P (Obj (setitem acc (normalize_label (subsegment rc)) (Obj rv)))"
      by (rule all_nums_setitem)
    from Cons.IH [OF r this rest] show ?thesis .
  qed
qed

lemma by_country_loop_nums:
  "by_country_loop rnd years recs acc = Inr d \<Longrightarrow> all_nums P (Obj acc) \<Longrightarrow>
     \<forall>rc \<in> set recs. \<forall>x \<in> snd ` set (values' rc). \<forall>y. rnd x = Inr y \<longrightarrow> P y \<Longrightarrow>
     all_nums P (Obj d)"
proof (induction recs arbitrary: acc)
  case Nil
  then show ?case by simp
next
  case (Cons rc recs)
  from Cons.prems(3) have
    here: "\<forall>x \<in> snd ` set (values' rc). \<forall>y. rnd x = Inr y \<longrightarrow> P y" and
    rest: "\<forall>rc \<in> set recs. \<forall>x \<in> snd ` set (values' rc). \<forall>y. rnd x = Inr y \<longrightarrow> P y"
    by simp_all
  show ?case
  proof (cases "segment rc = ''By Country''")
    case False
    with Cons.prems(1) have "by_country_loop rnd years recs acc = Inr d" by simp
    from Cons.IH [OF this Cons.prems(2) rest] show ?thesis .
  next
    case True
    with Cons.prems(1) obtain rv where
      rv: "rounded_values rnd (values' rc) years [] = Inr rv" and
      r: "by_country_loop rnd years recs (setitem acc (subsegment rc) (Obj rv)) = Inr d"
      by (auto simp: err_bind_eq_Inr)
    have "all_nums P (Obj rv)" using rv here by (rule record_nums)
    with Cons.prems(2) have "all_nums P (Obj (setitem acc (subsegment rc) (Obj rv)))"
      by (rule all_nums_setitem)
    from Cons.IH [OF r this rest] show ?thesis .
  qed
qed

lemma set_under_nums:
  assumes "set_under data geo key d = Inr data'" and "all_nums P (Obj data)"
    and "all_nums P (Obj d)"
  shows "all_nums P (Obj data')"
proof -
  from assms(1) obtain dg dgd where
    g: "getitem data geo = Inr dg" "as_dict dg = Inr dgd" and
    r: "data' = setitem data geo (Obj (setitem dgd key (Obj d)))"
    by (auto simp: set_under_def err_bind_eq_Inr)
  from store_nums [OF g assms(2,3)] r show ?thesis by simp
qed

lemma geo_loop_nums:
  "geo_loop rnd years rr geos data = Inr data' \<Longrightarrow> all_nums P (Obj data) \<Longrightarrow>
     \<forall>g recs. getitem rr g = Inr recs \<longrightarrow>
       (\<forall>rc \<in> set recs. \<forall>x \<in> snd ` set (values' rc). \<forall>y. rnd x = Inr y \<longrightarrow> P y) \<Longrightarrow>
     all_nums P (Obj data')"
proof (induction geos arbitrary: data)
  case Nil
  then show ?case by simp
next
  case (Cons geo geos)
  show ?case
  proof (cases "has_key rr geo")
    case False
    with Cons.prems(1) have "geo_loop rnd years rr geos data = Inr data'" by simp
    from Cons.IH [OF this Cons.prems(2,3)] show ?thesis .
  next
    case True
    from True Cons.prems(1) obtain geo_recs data1 data2 data3 where
      gr: "getitem rr geo = Inr geo_recs" and
      a: "add_segments rnd years geo geo_recs (setitem data geo (Obj [])) = Inr data1" and
      b: "(if geo = ''Global'' then
             err_bind (by_region_loop rnd years geo_recs []) (\<lambda>by_region.
               if by_region \<noteq> [] then set_under data1 ''Global'' ''By Region'' by_region
               else Inr data1)
           else Inr data1) = Inr data2" and
      c: "(if geo \<in> set REGIONS then
             err_bind (by_country_loop rnd years geo_recs []) (\<lambda>by_country.
               if by_country \<noteq> [] then set_under data2 geo ''By Country'' by_country
               else Inr data2)
           else Inr data2) = Inr data3" and
      r: "geo_loop rnd years rr geos data3 = Inr data'"
      by (auto simp: err_bind_eq_Inr)
    from Cons.prems(3) gr have
      q: "\<forall>rc \<in> set geo_recs. \<forall>x \<in> snd ` set (values' rc). \<forall>y. rnd x = Inr y \<longrightarrow> P y"
      by blast
    have "all_nums P (Obj (setitem data geo (Obj [])))"
      using Cons.prems(2) all_nums_empty by (rule all_nums_setitem)
    from add_segments_nums [where P = P, OF a this q] have n1: "all_nums P (Obj data1)" .
    have n2: "all_nums P (Obj data2)"
    proof (cases "geo = ''Global''")
      case False
      with b n1 show ?thesis by simp
    next
      case True
      with b obtain by_region where
        l: "by_region_loop rnd years geo_recs [] = Inr by_region" and
        u: "(if by_region \<noteq> [] then set_under data1 ''Global'' ''By Region'' by_region
               else Inr data1) = Inr data2"
        by (auto simp: err_bind_eq_Inr)
      have "all_nums P (Obj by_region)"
        using by_region_loop_nums [where P = P, OF l all_nums_empty q] .
      with u n1 set_under_nums [of data1 "''Global''" "''By Region''" by_region data2 P]
      show ?thesis by (cases "by_region = []") simp_all
    qed
    have n3: "all_nums P (Obj data3)"
    proof (cases "geo \<in> set REGIONS")
      case False
      with c n2 show ?thesis by simp
    next
      case True
      with c obtain by_country where
        l: "by_country_loop rnd years geo_recs [] = Inr by_country" and
        u: "(if by_country \<noteq> [] then set_under data2 geo ''By Country'' by_country
               else Inr data2) = Inr data3"
        by (auto simp: err_bind_eq_Inr)
      have "all_nums P (Obj by_country)"
        using by_country_loop_nums [where P = P, OF l all_nums_empty q] .
      with u n2 set_under_nums [of data2 geo "''By Country''" by_country data3 P]
      show ?thesis by (cases "by_country = []") simp_all
    qed
    from Cons.IH [OF r n3 Cons.prems(3)] show ?thesis .
  qed
qed

lemma build_with_nums:
  assumes "build_with rnd records years = Inr data"
  shows "all_nums (\<lambda>y. \<exists>rc \<in> set records. \<exists>x \<in> snd ` set (values' rc). rnd x = Inr y)
           (Obj data)"
proof -
  from group_by_region_spec [of records "[]"] obtain rr where
    rr: "group_by_region records [] = Inr rr" and
    m: "\<And>g. map_of rr g = (if [rc \<leftarrow> records. region rc = g] = [] then None
                             else Some [rc \<leftarrow> records. region rc = g])"
    by auto
  from assms rr have g: "geo_loop rnd years rr all_geos [] = Inr data"
    by (simp add: build_with_def)
  have "rc \<in> set records" if "getitem rr g = Inr recs" "rc \<in> set recs" for g recs rc
  proof -
    from that(1) m [of g] have "recs = [rc \<leftarrow> records. region rc = g]"
      by (simp add: getitem_map_of split: if_splits option.splits)
    with that(2) show ?thesis by simp
  qed
  then have "\<forall>g recs. getitem rr g = Inr recs \<longrightarrow>
       (\<forall>rc \<in> set recs. \<forall>x \<in> snd ` set (values' rc). \<forall>y. rnd x = Inr y \<longrightarrow>
          (\<exists>rc \<in> set records. \<exists>x \<in> snd ` set (values' rc). rnd x = Inr y))"
    by blast
  from geo_loop_nums [OF g all_nums_empty this] show ?thesis .
qed

subsection \<open>What is written is the rounding of what was read\<close>

lemma walk_year_values:
  assumes "has_year_data node"
  shows "\<exists>res g'. walk_and_convert uniform g (Obj node) = (Obj res, g') \<and>
           map fst res = map fst node \<and>
           (\<forall>i < length node. \<forall>v. snd (node ! i) = Num v \<longrightarrow>
              snd (res ! i) = Num (of_int (py_round (v * fst (draw_factor uniform g node)))))"
proof -
  let ?f = "fst (draw_factor uniform g node)"
  from walk_year_node [OF assms, of uniform g] obtain res g' where
    w: "walk_and_convert uniform g (Obj node) = (Obj res, g')" and
    l: "list_all2 (converted_entry uniform (scaled ?f)) node res"
    by blast
  from l have len: "length res = length node"
    and e: "\<And>i. i < length node \<Longrightarrow> converted_entry uniform (scaled ?f) (node ! i) (res ! i)"
    by (simp_all add: list_all2_conv_all_nth)
  have "map fst res = map fst node"
    using len e by (intro nth_equalityI) (simp_all add: converted_entry_def)
  moreover have "snd (res ! i) = Num (of_int (py_round (v * ?f)))"
    if "i < length node" "snd (node ! i) = Num v" for i v
    using e [OF that(1)] that(2) by (simp add: converted_entry_def scaled_def)
  ultimately show ?thesis using w by blast
qed

text \<open>
  C7: what is written is the rounding of what was read, in both pipelines.

  \<^item> The roundings: \<^verbatim>\<open>round(x, 1)\<close> of a finite float is a number with one decimal at
    most 0.05 away from it (infinities and NaN it returns as they are), and
    \<^verbatim>\<open>round(x)\<close> is an integer at most 0.5 away.
  \<^item> Indentation pipeline, value tree: \<^verbatim>\<open>read_value_sheet\<close> returns, for each row with a
    label, each year cell rounded by \<^verbatim>\<open>round(x, 1)\<close> (an int as it is, 0 for an empty
    cell), or raises a TypeError when a year cell is no number; and every number of the
    tree assembled from these rows is the value written for a year cell of the sheet.
  \<^item> Indentation pipeline, volume tree: \<^verbatim>\<open>generate_volume_from_value\<close> is
    \<^verbatim>\<open>walk_and_convert\<close> from the seed 42; a node with a year key keeps its keys, and each
    number \<open>v\<close> of its own becomes \<^verbatim>\<open>round(v * factor)\<close> for the factor of the node; every
    year value of the volume tree is a whole number.
  \<^item> Column pipeline, value tree: \<^verbatim>\<open>build_json\<close> always returns; when the years are
    distinct, \<^verbatim>\<open>data[geo][seg][sub]\<close> is there exactly when a record is placed there, and
    is then the mapping of the years of the last such record to its values rounded by
    \<^verbatim>\<open>round(x, 1)\<close>; and every number of the tree is the rounding of a value of a record.
  \<^item> Column pipeline, volume tree: \<^verbatim>\<open>build_volume_json\<close> returns exactly when
    \<^verbatim>\<open>round(x)\<close> raises on no value, for the years asked for, of a record that is used
    (it raises on an infinity and on NaN); the tree it returns has the same content with
    \<^verbatim>\<open>round(x)\<close> as the rounding.
\<close>

theorem C7_rounded_values:
  "(round1 (Finite x) = Finite (py_round1 x) \<and> one_decimal (py_round1 x)
      \<and> \<bar>py_round1 x - x\<bar> \<le> 1 / 20
      \<and> round0 (Finite x) = Inr (py_round x) \<and> \<bar>of_int (py_round x) - x\<bar> \<le> 1 / 2)
   \<and> read_value_sheet b sheet = spec_read_value_sheet b sheet
   \<and> (read_value_sheet b sheet = Inr rows \<and> build_json_from_value_sheet rows = Inr value_tree
        \<longrightarrow> all_nums (\<lambda>v. \<exists>sr \<in> set (labelled sheet). \<exists>i < length YEARS.
                              v = spec_written (value_cell sr (2 + i))) (Obj value_tree))
   \<and> generate_volume_from_value seed uniform gen value_data =
        walk_and_convert uniform (seed 42) (Obj value_data)
   \<and> (has_year_data node \<longrightarrow>
        (\<exists>res g'. walk_and_convert uniform g (Obj node) = (Obj res, g') \<and>
           map fst res = map fst node \<and>
           (\<forall>i < length node. \<forall>v. snd (node ! i) = Num v \<longrightarrow>
              snd (res ! i) = Num (of_int (py_round (v * fst (draw_factor uniform g node)))))))
   \<and> year_nums whole (fst (generate_volume_from_value seed uniform gen value_data))
   \<and> (\<exists>data. build_json records years = Inr data)
   \<and> (build_json records years = Inr data \<and> distinct years \<longrightarrow>
        lookup3 data geo seg sub =
          (case filter (placed geo seg sub) records of
             [] \<Rightarrow> None
           | r # rs \<Rightarrow>
               Some (Obj (spec_rounded (\<lambda>x. Inr (round1 x)) (values' (last (r # rs))) years))))
   \<and> (build_json records years = Inr data \<longrightarrow>
        all_nums (\<lambda>y. \<exists>rc \<in> set records. \<exists>x \<in> snd ` set (values' rc). y = round1 x)
          (Obj data))
   \<and> ((\<exists>vdata. build_volume_json records years = Inr vdata) =
        (\<forall>rc \<in> set records. used rc \<longrightarrow> rounds_ok round0 years rc))
   \<and> (build_volume_json records years = Inr vdata \<and> distinct years \<longrightarrow>
        lookup3 vdata geo seg sub =
          (case filter (placed geo seg sub) records of
             [] \<Rightarrow> None
           | r # rs \<Rightarrow> Some (Obj (spec_rounded round0 (values' (last (r # rs))) years))))
   \<and> (build_volume_json records years = Inr vdata \<longrightarrow>
        all_nums (\<lambda>n. \<exists>rc \<in> set records. \<exists>x \<in> snd ` set (values' rc). round0 x = Inr n)
          (Obj vdata))"
proof (intro conjI impI)
  show "round1 (Finite x) = Finite (py_round1 x)" by simp
  show "one_decimal (py_round1 x)" by (rule one_decimal_py_round1)
  show "\<bar>py_round1 x - x\<bar> \<le> 1 / 20" by (rule py_round1_near)
  show "round0 (Finite x) = Inr (py_round x)" by simp
  show "\<bar>of_int (py_round x) - x\<bar> \<le> 1 / 2" by (rule py_round_near)
  show "read_value_sheet b sheet = spec_read_value_sheet b sheet"
    by (rule read_value_sheet_spec)
next
  assume a: "read_value_sheet b sheet = Inr rows \<and>
    build_json_from_value_sheet rows = Inr value_tree"
  then have "spec_read_value_sheet b sheet = Inr rows" by (simp add: read_value_sheet_spec)
  then have "rows = map (spec_row b) (labelled sheet)"
    by (simp add: spec_read_value_sheet_def split: if_splits)
  with spec_rows_ok [of sheet b] have "rows_ok (\<lambda>v. \<exists>sr \<in> set (labelled sheet).
      \<exists>i < length YEARS. v = spec_written (value_cell sr (2 + i))) rows"
    by simp
  with a show "all_nums (\<lambda>v. \<exists>sr \<in> set (labelled sheet). \<exists>i < length YEARS.
      v = spec_written (value_cell sr (2 + i))) (Obj value_tree)"
    using build_json_from_value_sheet_nums by blast
next
  show "generate_volume_from_value seed uniform gen value_data =
        walk_and_convert uniform (seed 42) (Obj value_data)"
    by (simp add: generate_volume_from_value_def)
next
  assume "has_year_data node"
  then show "\<exists>res g'. walk_and_convert uniform g (Obj node) = (Obj res, g') \<and>
           map fst res = map fst node \<and>
           (\<forall>i < length node. \<forall>v. snd (node ! i) = Num v \<longrightarrow>
              snd (res ! i) = Num (of_int (py_round (v * fst (draw_factor uniform g node)))))"
    by (rule walk_year_values)
next
  show "year_nums whole (fst (generate_volume_from_value seed uniform gen value_data))"
    unfolding generate_volume_from_value_def by (rule walk_year_nums)
next
  show "\<exists>data. build_json records years = Inr data"
    unfolding build_json_def build_with_returns_iff by (simp add: rounds_ok_round1)
next
  assume "build_json records years = Inr data \<and> distinct years"
  then show "lookup3 data geo seg sub =
          (case filter (placed geo seg sub) records of
             [] \<Rightarrow> None
           | r # rs \<Rightarrow>
               Some (Obj (spec_rounded (\<lambda>x. Inr (round1 x)) (values' (last (r # rs))) years)))"
    unfolding build_json_def using build_with_spec by blast
next
  assume "build_json records years = Inr data"
  then have "build_with (\<lambda>x. Inr (round1 x)) records years = Inr data"
    by (simp add: build_json_def)
  from build_with_nums [OF this]
  show "all_nums (\<lambda>y. \<exists>rc \<in> set records. \<exists>x \<in> snd ` set (values' rc). y = round1 x)
          (Obj data)"
    by (simp add: eq_commute)
next
  show "(\<exists>vdata. build_volume_json records years = Inr vdata) =
        (\<forall>rc \<in> set records. used rc \<longrightarrow> rounds_ok round0 years rc)"
    unfolding build_volume_json_def by (rule build_with_returns_iff)
next
  assume "build_volume_json records years = Inr vdata \<and> distinct years"
  then show "lookup3 vdata geo seg sub =
          (case filter (placed geo seg sub) records of
             [] \<Rightarrow> None
           | r # rs \<Rightarrow> Some (Obj (spec_rounded round0 (values' (last (r # rs))) years)))"
    unfolding build_volume_json_def using build_with_spec by blast
next
  assume "build_volume_json records years = Inr vdata"
  then show "all_nums (\<lambda>n. \<exists>rc \<in> set records. \<exists>x \<in> snd ` set (values' rc). round0 x = Inr n)
          (Obj vdata)"
    unfolding build_volume_json_def by (rule build_with_nums)
qed

theorem C7_rounded_values_witness:
  "one_decimal (py_round1 13079.66) \<and> \<bar>py_round1 13079.66 - 13079.66\<bar> \<le> 1 / 20
   \<and> read_value_sheet
        \<lparr>str_of_int = (\<lambda>n. ''0''), str_of_float = (\<lambda>f. ''0.0''), strip_text = (\<lambda>s. s),
         float_of_int = (\<lambda>n. Some (Finite (of_int n))), float_of_text = (\<lambda>s. None)\<rparr>
        [\<lparr>label_cell = Text ''Global'', alignment_indent = None, value_cell = (\<lambda>c. Empty)\<rparr>,
         \<lparr>label_cell = Text ''By Product'', alignment_indent = Some 1,
          value_cell = (\<lambda>c. Empty)\<rparr>,
         \<lparr>label_cell = Text ''Combo Products'', alignment_indent = Some 2,
          value_cell = (\<lambda>c. if c = 2 then FloatCell (Finite 13079.66) else Empty)\<rparr>]
      = Inr [\<lparr>label = ''Global'', indent = 0, year_data = None\<rparr>,
             \<lparr>label = ''By Product'', indent = 1, year_data = None\<rparr>,
             \<lparr>label = ''Combo Products'', indent = 2, year_data = Some
               [(''2021'', Num (Finite 13079.7)), (''2022'', Num (Finite 0)),
                (''2023'', Num (Finite 0)), (''2024'', Num (Finite 0)),
                (''2025'', Num (Finite 0)), (''2026'', Num (Finite 0)),
                (''2027'', Num (Finite 0)), (''2028'', Num (Finite 0)),
                (''2029'', Num (Finite 0)), (''2030'', Num (Finite 0)),
                (''2031'', Num (Finite 0)), (''2032'', Num (Finite 0)),
                (''2033'', Num (Finite 0))]\<rparr>]
   \<and> all_nums
        (\<lambda>v. \<exists>sr \<in> set (labelled
           [\<lparr>label_cell = Text ''Global'', alignment_indent = None, value_cell = (\<lambda>c. Empty)\<rparr>,
            \<lparr>label_cell = Text ''By Product'', alignment_indent = Some 1,
             value_cell = (\<lambda>c. Empty)\<rparr>,
            \<lparr>label_cell = Text ''Combo Products'', alignment_indent = Some 2,
             value_cell = (\<lambda>c. if c = 2 then FloatCell (Finite 13079.66) else Empty)\<rparr>]).
           \<exists>i < length YEARS. v = spec_written (value_cell sr (2 + i)))
        (Obj [(''Global'', Obj [(''By Product'', Obj [(''Combo Products'', Obj
               [(''2021'', Num (Finite 13079.7)), (''2022'', Num (Finite 0)),
                (''2023'', Num (Finite 0)), (''2024'', Num (Finite 0)),
                (''2025'', Num (Finite 0)), (''2026'', Num (Finite 0)),
                (''2027'', Num (Finite 0)), (''2028'', Num (Finite 0)),
                (''2029'', Num (Finite 0)), (''2030'', Num (Finite 0)),
                (''2031'', Num (Finite 0)), (''2032'', Num (Finite 0)),
                (''2033'', Num (Finite 0))])])])])
   \<and> has_year_data [(''2021'', Num (100::real)), (''Inhalers'', Obj [(''2021'', Num 60)])]
   \<and> (\<exists>res g'.
        walk_and_convert (\<lambda>n lo hi. ((lo + hi) / 2, Suc n)) (0::nat)
          (Obj [(''2021'', Num 100), (''Inhalers'', Obj [(''2021'', Num 60)])]) = (Obj res, g') \<and>
        map fst res = [''2021'', ''Inhalers''] \<and>
        snd (res ! 0) = Num 225000)
   \<and> build_json
        [\<lparr>region = ''Global'', segment = ''By Technology'', subsegment = ''Micro'',
          values' = [(''2019'', Finite 10.26)]\<rparr>,
         \<lparr>region = ''Mars'', segment = ''By Technology'', subsegment = ''Micro'',
          values' = [(''2019'', PosInf)]\<rparr>] [''2019'']
      = Inr [(''Global'', Obj [(''By Technology'', Obj [(''Micro'',
               Obj [(''2019'', Num (Finite 10.3))])])])]
   \<and> lookup3 [(''Global'', Obj [(''By Technology'', Obj [(''Micro'',
               Obj [(''2019'', Num (Finite 10.3))])])])] ''Global'' ''By Technology'' ''Micro''
      = Some (Obj (spec_rounded (\<lambda>x. Inr (round1 x)) [(''2019'', Finite 10.26)] [''2019'']))
   \<and> spec_rounded (\<lambda>x. Inr (round1 x)) [(''2019'', Finite 10.26)] [''2019'']
      = [(''2019'', Num (Finite 10.3))]
   \<and> used \<lparr>region = ''Global'', segment = ''By Technology'', subsegment = ''Micro'',
          values' = [(''2019'', Finite 10.26)]\<rparr>
   \<and> rounds_ok round0 [''2019'']
        \<lparr>region = ''Global'', segment = ''By Technology'', subsegment = ''Micro'',
          values' = [(''2019'', Finite 10.26)]\<rparr>
   \<and> \<not> used \<lparr>region = ''Mars'', segment = ''By Technology'', subsegment = ''Micro'',
          values' = [(''2019'', PosInf)]\<rparr>
   \<and> build_volume_json
        [\<lparr>region = ''Global'', segment = ''By Technology'', subsegment = ''Micro'',
          values' = [(''2019'', Finite 10.26)]\<rparr>,
         \<lparr>region = ''Mars'', segment = ''By Technology'', subsegment = ''Micro'',
          values' = [(''2019'', PosInf)]\<rparr>] [''2019'']
      = Inr [(''Global'', Obj [(''By Technology'', Obj [(''Micro'',
               Obj [(''2019'', Num 10)])])])]
   \<and> lookup3 [(''Global'', Obj [(''By Technology'', Obj [(''Micro'',
               Obj [(''2019'', Num (10::int))])])])] ''Global'' ''By Technology'' ''Micro''
      = Some (Obj (spec_rounded round0 [(''2019'', Finite 10.26)] [''2019'']))
   \<and> spec_rounded round0 [(''2019'', Finite 10.26)] [''2019''] = [(''2019'', Num 10)]"
proof -
  let ?b = "\<lparr>str_of_int = (\<lambda>n :: int. ''0''), str_of_float = (\<lambda>f :: pyfloat. ''0.0''),
      strip_text = (\<lambda>s :: string. s),
      float_of_int = (\<lambda>n :: int. Some (Finite (of_int n))),
      float_of_text = (\<lambda>s :: string. None :: pyfloat option)\<rparr>"
  let ?sheet = "[\<lparr>label_cell = Text ''Global'', alignment_indent = None,
          value_cell = (\<lambda>c. Empty)\<rparr>,
         \<lparr>label_cell = Text ''By Product'', alignment_indent = Some 1,
          value_cell = (\<lambda>c. Empty)\<rparr>,
         \<lparr>label_cell = Text ''Combo Products'', alignment_indent = Some 2,
          value_cell = (\<lambda>c. if c = 2 then FloatCell (Finite 13079.66) else Empty)\<rparr>]"
  let ?yd = "[(''2021'', Num (Finite 13079.7)), (''2022'', Num (Finite 0)),
                (''2023'', Num (Finite 0)), (''2024'', Num (Finite 0)),
                (''2025'', Num (Finite 0)), (''2026'', Num (Finite 0)),
                (''2027'', Num (Finite 0)), (''2028'', Num (Finite 0)),
                (''2029'', Num (Finite 0)), (''2030'', Num (Finite 0)),
                (''2031'', Num (Finite 0)), (''2032'', Num (Finite 0)),
                (''2033'', Num (Finite 0))]"
  let ?rows = "[\<lparr>label = ''Global'', indent = 0, year_data = None\<rparr>,
      \<lparr>label = ''By Product'', indent = 1, year_data = None\<rparr>,
      \<lparr>label = ''Combo Products'', indent = 2, year_data = Some ?yd\<rparr>]"
  let ?tree = "[(''Global'', Obj [(''By Product'', Obj [(''Combo Products'', Obj ?yd)])])]"
  let ?u = "\<lambda>(n::nat) (lo::real) hi. ((lo + hi) / 2, Suc n)"
  let ?mixed = "[(''2021'', Num (100::real)), (''Inhalers'', Obj [(''2021'', Num 60)])]"
  let ?r1 = "\<lparr>region = ''Global'', segment = ''By Technology'', subsegment = ''Micro'',
          values' = [(''2019'', Finite 10.26)]\<rparr>"
  let ?r2 = "\<lparr>region = ''Mars'', segment = ''By Technology'', subsegment = ''Micro'',
          values' = [(''2019'', PosInf)]\<rparr>"
  let ?data = "[(''Global'', Obj [(''By Technology'', Obj [(''Micro'',
               Obj [(''2019'', Num (Finite 10.3))])])])]"
  let ?vdata = "[(''Global'', Obj [(''By Technology'', Obj [(''Micro'',
               Obj [(''2019'', Num (10::int))])])])]"
  note T = C7_rounded_values [where x = "13079.66" and b = ?b and sheet = ?sheet
      and rows = ?rows and value_tree = ?tree and uniform = ?u and g = 0 and node = ?mixed
      and records = "[?r1, ?r2]" and years = "[''2019'']" and data = ?data and vdata = ?vdata
      and geo = "''Global''" and seg = "''By Technology''" and sub = "''Micro''"]
  note k = T [THEN conjunct1]
  note G3 = T [THEN conjunct2, THEN conjunct2, THEN conjunct1]
  note G5 = T [THEN conjunct2, THEN conjunct2, THEN conjunct2, THEN conjunct2, THEN conjunct1]
  note R = T [THEN conjunct2, THEN conjunct2, THEN conjunct2, THEN conjunct2, THEN conjunct2,
      THEN conjunct2, THEN conjunct2]
  note G8 = R [THEN conjunct1]
  note G11 = R [THEN conjunct2, THEN conjunct2, THEN conjunct2, THEN conjunct1]
  from k have 1: "one_decimal (py_round1 13079.66)"
    "\<bar>py_round1 13079.66 - 13079.66\<bar> \<le> 1 / 20" by blast+
  have r: "read_value_sheet ?b ?sheet = Inr ?rows"
    by (simp add: read_value_sheet_def YEARS_list str_nat.simps py_round1_def py_round_def
        Let_def)
  have t: "build_json_from_value_sheet ?rows = Inr ?tree"
    by (simp add: build_json_from_value_sheet_def main_step_def init_state_def)
  from G3 r t have 3: "all_nums (\<lambda>v. \<exists>sr \<in> set (labelled ?sheet). \<exists>i < length YEARS.
      v = spec_written (value_cell sr (2 + i))) (Obj ?tree)"
    by blast
  have y: "has_year_data ?mixed" by (simp add: has_year_data_def isdigit_def)
  have d: "fst (draw_factor ?u 0 ?mixed) = 2250"
    by (simp add: draw_factor_def factor_range_def isdigit_def)
  from G5 y obtain res g' where
    w: "walk_and_convert ?u 0 (Obj ?mixed) = (Obj res, g')" and
    f: "map fst res = map fst ?mixed" and
    v: "\<forall>i < length ?mixed. \<forall>v. snd (?mixed ! i) = Num v \<longrightarrow>
              snd (res ! i) = Num (of_int (py_round (v * fst (draw_factor ?u 0 ?mixed))))"
    by blast
  from v [rule_format, of 0 100] have "snd (res ! 0) = Num 225000"
    unfolding d by (simp add: py_round_def Let_def)
  with w f have 5: "\<exists>res g'. walk_and_convert ?u 0 (Obj ?mixed) = (Obj res, g') \<and>
        map fst res = [''2021'', ''Inhalers''] \<and> snd (res ! 0) = Num 225000"
    by simp
  have j: "build_json [?r1, ?r2] [''2019''] = Inr ?data"
    by (simp add: build_json_def build_with_def all_geos_def REGIONS_def ALL_COUNTRIES_def
        GEO_HIERARCHY_def py_round1_def py_round_def Let_def)
  have p: "filter (placed ''Global'' ''By Technology'' ''Micro'') [?r1, ?r2] = [?r1]"
    by (simp add: placed_def all_geos_def)
  from G8 j have 8: "lookup3 ?data ''Global'' ''By Technology'' ''Micro'' =
      Some (Obj (spec_rounded (\<lambda>x. Inr (round1 x)) [(''2019'', Finite 10.26)] [''2019'']))"
    unfolding p by simp
  have u1: "used ?r1" by (simp add: used_def all_geos_def)
  have u2: "\<not> used ?r2"
    by (simp add: used_def all_geos_def REGIONS_def ALL_COUNTRIES_def GEO_HIERARCHY_def)
  have o1: "rounds_ok round0 [''2019''] ?r1" by (simp add: rounds_ok_def)
  have vj: "build_volume_json [?r1, ?r2] [''2019''] = Inr ?vdata"
    by (simp add: build_volume_json_def build_with_def all_geos_def REGIONS_def
        ALL_COUNTRIES_def GEO_HIERARCHY_def py_round_def Let_def)
  from G11 vj have 11: "lookup3 ?vdata ''Global'' ''By Technology'' ''Micro'' =
      Some (Obj (spec_rounded round0 [(''2019'', Finite 10.26)] [''2019'']))"
    unfolding p by simp
  have s1: "spec_rounded (\<lambda>x. Inr (round1 x)) [(''2019'', Finite 10.26)] [''2019'']
      = [(''2019'', Num (Finite 10.3))]"
    by (simp add: spec_rounded_def py_round1_def py_round_def Let_def)
  have s0: "spec_rounded round0 [(''2019'', Finite 10.26)] [''2019''] = [(''2019'', Num 10)]"
    by (simp add: spec_rounded_def py_round_def Let_def)
  from 1 r 3 y 5 j 8 s1 u1 o1 u2 vj 11 s0 show ?thesis by blast
qed

end
